theory Spec2Isabelle
  imports Complex_Main "HOL-Library.AList"
begin

section \<open>Strings\<close>

text \<open>
  Python \<open>str\<close> and \<open>bytes\<close> values are modelled as \<open>string\<close> (a list of 8-bit
  characters, read as code points below 256).  The helpers below are the string methods
  the pipeline calls.
\<close>

definition dq :: char where
  "dq = CHR 0x22"

definition nl :: char where
  "nl = CHR 0x0A"

definition bslash :: char where
  "bslash = CHR 0x5C"

text \<open>\<open>str.isspace\<close> on one character; also the class \<open>\s\<close> of \<open>re\<close> on \<open>str\<close> patterns.\<close>

definition is_space :: "char \<Rightarrow> bool" where
  "is_space c = ((of_char c :: nat) \<in> {9, 10, 11, 12, 13, 28, 29, 30, 31, 32, 133, 160})"

definition strip :: "string \<Rightarrow> string" where
  "strip s = rev (dropWhile is_space (rev (dropWhile is_space s)))"

definition rstrip :: "char \<Rightarrow> string \<Rightarrow> string" where
  "rstrip c s = rev (dropWhile (\<lambda>x. x = c) (rev s))"

definition endswith :: "string \<Rightarrow> string \<Rightarrow> bool" where
  "endswith s suf = (length suf \<le> length s \<and> drop (length s - length suf) s = suf)"

definition startswith :: "string \<Rightarrow> string \<Rightarrow> bool" where
  "startswith s pre = (take (length pre) s = pre)"

text \<open>\<open>sub in s\<close> on strings.\<close>

fun contains :: "string \<Rightarrow> string \<Rightarrow> bool" where
  "contains [] sub = (sub = [])"
| "contains (c # cs) sub = (startswith (c # cs) sub \<or> contains cs sub)"

text \<open>\<open>s.split(c)[0]\<close> and \<open>s.split(c)[-1]\<close> for a one-character separator.\<close>

definition split_first :: "char \<Rightarrow> string \<Rightarrow> string" where
  "split_first c s = takeWhile (\<lambda>x. x \<noteq> c) s"

definition split_last :: "char \<Rightarrow> string \<Rightarrow> string" where
  "split_last c s = rev (takeWhile (\<lambda>x. x \<noteq> c) (rev s))"

text \<open>\<open>str(n)\<close> for a non-negative integer.\<close>

function str_nat :: "nat \<Rightarrow> string" where
  "str_nat n =
     (if n < 10 then [char_of (48 + n)] else str_nat (n div 10) @ [char_of (48 + n mod 10)])"
  by pat_completeness auto
termination
  by (relation "measure id") auto

declare str_nat.simps [simp del]

section \<open>Regular expressions\<close>

text \<open>
  The patterns of the source are kept as data and run by a backtracking matcher with the
  priorities of Python's \<open>re\<close>: a greedy repetition tries one more iteration before it
  tries to stop, a lazy one the other way round, and the first alternative that lets the
  whole pattern match wins.  \<open>ms r (s, c)\<close> lists, in that priority order, every way
  \<open>r\<close> can match a prefix of \<open>s\<close>: the input left over and the groups captured so far.
\<close>

type_synonym caps = "nat \<Rightarrow> string option"

datatype regex =
    Lit string
  | Cls "char \<Rightarrow> bool"
  | Cat regex regex
  | Opt regex
  | Star regex
  | Lazy regex
  | Grp nat regex

abbreviation Plus :: "regex \<Rightarrow> regex" where
  "Plus r \<equiv> Cat r (Star r)"

function ms :: "regex \<Rightarrow> string \<times> caps \<Rightarrow> (string \<times> caps) list" where
  "ms (Lit l) x =
     (if take (length l) (fst x) = l then [(drop (length l) (fst x), snd x)] else [])"
| "ms (Cls P) x =
     (case fst x of [] \<Rightarrow> [] | c # cs \<Rightarrow> if P c then [(cs, snd x)] else [])"
| "ms (Cat a b) x = concat (map (ms b) (ms a x))"
| "ms (Opt a) x = ms a x @ [x]"
| "ms (Star a) x =
     concat (map (ms (Star a)) (filter (\<lambda>y. length (fst y) < length (fst x)) (ms a x))) @ [x]"
| "ms (Lazy a) x =
     x # concat (map (ms (Lazy a)) (filter (\<lambda>y. length (fst y) < length (fst x)) (ms a x)))"
| "ms (Grp n a) x =
     map (\<lambda>y. (fst y, (snd y)(n \<mapsto> take (length (fst x) - length (fst y)) (fst x))))
       (ms a x)"
  by pat_completeness auto
termination
  by (relation "inv_image (less_than <*lex*> less_than) (\<lambda>(r, x). (size r, length (fst x)))")
    auto

declare ms.simps(5) [simp del]

declare ms.simps(6) [simp del]

text \<open>\<open>re.match\<close> at the start of \<open>s\<close>: the first way in priority order, if any.\<close>

definition match_at :: "regex \<Rightarrow> string \<Rightarrow> (string \<times> caps) option" where
  "match_at r s = (case ms r (s, Map.empty) of [] \<Rightarrow> None | y # _ \<Rightarrow> Some y)"

text \<open>\<open>re.search\<close>: the leftmost start position with a match.\<close>

fun re_search :: "regex \<Rightarrow> string \<Rightarrow> caps option" where
  "re_search r [] = map_option snd (match_at r [])"
| "re_search r (c # cs) =
     (case match_at r (c # cs) of Some y \<Rightarrow> Some (snd y) | None \<Rightarrow> re_search r cs)"

text \<open>\<open>re.finditer\<close>: the matches from left to right, each search resuming where the
  previous match ended.\<close>

function finditer :: "regex \<Rightarrow> string \<Rightarrow> caps list" where
  "finditer r s =
     (case match_at r s of
        Some y \<Rightarrow>
          snd y # (if length (fst y) < length s then finditer r (fst y)
                   else (case s of [] \<Rightarrow> [] | _ # cs \<Rightarrow> finditer r cs))
      | None \<Rightarrow> (case s of [] \<Rightarrow> [] | _ # cs \<Rightarrow> finditer r cs))"
  by pat_completeness auto
termination
  by (relation "measure (\<lambda>(r, s). length s)") auto

declare finditer.simps [simp del]

text \<open>\<open>m.group(n)\<close>; every group of the patterns below takes part in every match.\<close>

definition group :: "caps \<Rightarrow> nat \<Rightarrow> string" where
  "group m n = (case m n of Some g \<Rightarrow> g | None \<Rightarrow> [])"

text \<open>\<open>re.findall\<close> for a pattern with one group (a list of strings) and with two groups
  (a list of pairs).\<close>

definition findall1 :: "regex \<Rightarrow> string \<Rightarrow> string list" where
  "findall1 r s = map (\<lambda>m. group m 1) (finditer r s)"

definition findall2 :: "regex \<Rightarrow> string \<Rightarrow> (string \<times> string) list" where
  "findall2 r s = map (\<lambda>m. (group m 1, group m 2)) (finditer r s)"

subsection \<open>The patterns of the source\<close>

definition not_chr :: "char \<Rightarrow> char \<Rightarrow> bool" where
  "not_chr c x = (x \<noteq> c)"

definition lower :: "char \<Rightarrow> bool" where
  "lower c = (97 \<le> (of_char c :: nat) \<and> (of_char c :: nat) \<le> 122)"

definition lower_digit_us :: "char \<Rightarrow> bool" where
  "lower_digit_us c =
     (lower c \<or> (48 \<le> (of_char c :: nat) \<and> (of_char c :: nat) \<le> 57) \<or> c = CHR ''_'')"

text \<open>\<^verbatim>\<open>href="(/[^"]+/([a-z][a-z0-9_]*(?:\.[a-z0-9_]+)+)/)"\<close>\<close>

definition pat_package :: regex where
  "pat_package =
     Cat (Cls lower) (Cat (Star (Cls lower_digit_us))
       (Plus (Cat (Lit ''.'') (Plus (Cls lower_digit_us)))))"

definition pat_app_link :: regex where
  "pat_app_link =
     Cat (Lit (''href='' @ [dq]))
       (Cat (Grp 1 (Cat (Lit ''/'') (Cat (Plus (Cls (not_chr dq)))
          (Cat (Lit ''/'') (Cat (Grp 2 pat_package) (Lit ''/''))))))
        (Lit [dq]))"

text \<open>\<^verbatim>\<open>re.escape(app_path) + r'/"?\s*[^>]*>[\s\S]*?<p[^>]*>([^<]+)</p>'\<close>\<close>

definition pat_name :: "string \<Rightarrow> regex" where
  "pat_name path =
     Cat (Lit path) (Cat (Lit ''/'') (Cat (Opt (Lit [dq])) (Cat (Star (Cls is_space))
       (Cat (Star (Cls (not_chr CHR ''>''))) (Cat (Lit ''>'') (Cat (Lazy (Cls (\<lambda>c. True)))
         (Cat (Lit ''<p'') (Cat (Star (Cls (not_chr CHR ''>''))) (Cat (Lit ''>'')
           (Cat (Grp 1 (Plus (Cls (not_chr CHR ''<'')))) (Lit ''</p>'')))))))))))"

text \<open>\<^verbatim>\<open>"softwareVersion"\s*:\s*"([^"]+)"\<close>\<close>

definition pat_software_version :: regex where
  "pat_software_version =
     Cat (Lit ([dq] @ ''softwareVersion'' @ [dq])) (Cat (Star (Cls is_space))
       (Cat (Lit '':'') (Cat (Star (Cls is_space)) (Cat (Lit [dq])
         (Cat (Grp 1 (Plus (Cls (not_chr dq)))) (Lit [dq]))))))"

text \<open>\<^verbatim>\<open>class="version"[^>]*>([^<]+)<\<close>\<close>

definition pat_version_class :: regex where
  "pat_version_class =
     Cat (Lit (''class='' @ [dq] @ ''version'' @ [dq])) (Cat (Star (Cls (not_chr CHR ''>'')))
       (Cat (Lit ''>'') (Cat (Grp 1 (Plus (Cls (not_chr CHR ''<'')))) (Lit ''<''))))"

text \<open>\<^verbatim>\<open>href="(/r2\?u=[^"]+)"\<close>\<close>

definition pat_r2 :: regex where
  "pat_r2 =
     Cat (Lit (''href='' @ [dq]))
       (Cat (Grp 1 (Cat (Lit ''/r2?u='') (Plus (Cls (not_chr dq))))) (Lit [dq]))"

text \<open>\<^verbatim>\<open>href="(https://apkcombo\.com/d\?u=[^"]+)"\<close>\<close>

definition pat_d :: regex where
  "pat_d =
     Cat (Lit (''href='' @ [dq]))
       (Cat (Grp 1 (Cat (Lit ''https://apkcombo.com/d?u='') (Plus (Cls (not_chr dq)))))
        (Lit [dq]))"

text \<open>\<^verbatim>\<open>filename="?([^";\n]+)"?\<close>\<close>

definition pat_filename :: regex where
  "pat_filename =
     Cat (Lit ''filename='') (Cat (Opt (Lit [dq]))
       (Cat (Grp 1 (Plus (Cls (\<lambda>c. c \<noteq> dq \<and> c \<noteq> CHR '';'' \<and> c \<noteq> nl))))
        (Opt (Lit [dq]))))"

text \<open>\<^verbatim>\<open>re.sub(r'[<>:"/\\|?*]', "_", fname)\<close>\<close>

definition unsafe_char :: "char \<Rightarrow> bool" where
  "unsafe_char c = (c \<in> set (''<>:/|?*'' @ [dq, bslash]))"

definition sanitize :: "string \<Rightarrow> string" where
  "sanitize fname = map (\<lambda>c. if unsafe_char c then CHR ''_'' else c) fname"

section \<open>The environment and the persisted state\<close>

text \<open>
  Everything outside the program is a parameter: the site answering \<open>session.get\<close>, the
  library functions \<open>urllib.parse.quote\<close>, \<open>html.unescape\<close> and \<open>zipfile.ZipFile\<close>,
  and the decompiler started by \<open>subprocess.run\<close>.
\<close>

record response =
  resp_text :: string
  resp_content :: string
  resp_url :: string
  resp_headers :: "string \<rightharpoonup> string"

text \<open>An opened zip archive: \<open>namelist()\<close> and \<open>read(name)\<close>, \<open>None\<close> when the read raises.\<close>

record archive =
  namelist :: "string list"
  zread :: "string \<Rightarrow> string option"

text \<open>
  One poll of the progress monitor: the count \<open>count_java_files_fast\<close> returned, or an
  exception raised while scanning.
\<close>

datatype poll = Counted nat | PollError

text \<open>
  One run of the decompiler under \<open>subprocess.run(cmd, timeout=1800)\<close>: it returns, or the
  1800 seconds pass and \<open>subprocess.TimeoutExpired\<close> is raised.  Either way the run is
  described by what the monitor thread saw at its polls and by the entries present in the
  output directory afterwards.
\<close>

datatype jadx_run = Completed "poll list" "string list" | TimedOut "poll list" "string list"

text \<open>A file under \<open>APKS_DIR\<close>: the package directory and the file name.\<close>

type_synonym path = "string \<times> string"

record env =
  http :: "string \<Rightarrow> response option"
  quote :: "string \<Rightarrow> string"
  unescape :: "string \<Rightarrow> string"
  unzip :: "string \<Rightarrow> archive option"
  jadx :: "nat \<Rightarrow> string \<Rightarrow> path \<Rightarrow> jadx_run"

text \<open>The exceptions no handler of the source catches.\<close>

datatype exn = TimeoutExpired | IsADirectoryError | FileNotFoundError

text \<open>
  What the program does to the outside, in order: the requests it sends, the versions it
  saves, the progress lines it prints and the line with the counts of produced files.
\<close>

datatype event =
    Get string
  | Saved string string
  | Progress rat nat int
  | Decompiled nat
  | Progress100
  | Output nat nat

text \<open>
  The three working directories.  \<open>versions\<close> maps a file name under \<open>VERSIONS_DIR\<close> to
  its text, \<open>apks\<close> a directory name under \<open>APKS_DIR\<close> to its files, \<open>sources\<close> a
  directory name under \<open>SOURCES_DIR\<close> to the entries of its tree.  A package is one path
  component (the discovery pattern admits no other), so \<open>DIR / package\<close> is the key
  \<open>package\<close>.
\<close>

record world =
  versions :: "string \<rightharpoonup> string"
  apks :: "string \<rightharpoonup> (string \<rightharpoonup> string)"
  sources :: "string \<rightharpoonup> string list"
  log :: "event list"

definition BASE :: string where
  "BASE = ''https://apkcombo.com''"

definition DEVELOPERS :: "string list" where
  "DEVELOPERS =
     [''Google LLC'', ''Developed with Google'', ''Research at Google'', ''Red Hot Labs'',
      ''Google Samples'', ''Fitbit LLC'', ''Nest Labs Inc.'', ''Waymo LLC'', ''Waze'']"

text \<open>\<open>session.get(url)\<close> followed by \<open>raise_for_status()\<close>; \<open>None\<close> when either raises.\<close>

definition session_get :: "env \<Rightarrow> world \<Rightarrow> string \<Rightarrow> response option \<times> world" where
  "session_get e w u = (http e u, w\<lparr>log := log w @ [Get u]\<rparr>)"

section \<open>Version ledger\<close>

text \<open>
  \<open>Path.read_text()\<close> opens the file in text mode with the default \<open>newline=None\<close>
  (universal newlines): a carriage return followed by a line feed, and every other
  carriage return, reaches the program as one line feed.  \<open>Path.write_text()\<close> writes
  a line feed as the line separator of the platform; the model takes that separator to
  be the line feed (a POSIX system), so a file holds the characters written to it and
  \<open>versions\<close> maps a file name to the characters of the file.
\<close>

definition cr :: char where
  "cr = CHR 0x0D"

fun universal_newlines :: "string \<Rightarrow> string" where
  "universal_newlines [] = []"
| "universal_newlines [c] = (if c = cr then [nl] else [c])"
| "universal_newlines (c # d # cs) =
     (if c = cr \<and> d = nl then nl # universal_newlines cs
      else if c = cr then nl # universal_newlines (d # cs)
      else c # universal_newlines (d # cs))"

definition read_text :: "string \<Rightarrow> string" where
  "read_text t = universal_newlines t"

text \<open>\<open>ver_file.read_text().strip()\<close> when the file exists, \<open>None\<close> otherwise.\<close>

definition get_stored_version :: "world \<Rightarrow> string \<Rightarrow> string option" where
  "get_stored_version w pkg =
     (case versions w (pkg @ ''.version'') of
        Some t \<Rightarrow> Some (strip (read_text t))
      | None \<Rightarrow> None)"

text \<open>\<open>ver_file.write_text(version)\<close>.\<close>

definition save_version :: "world \<Rightarrow> string \<Rightarrow> string \<Rightarrow> world" where
  "save_version w pkg version =
     w\<lparr>versions := (versions w)(pkg @ ''.version'' \<mapsto> version),
       log := log w @ [Saved pkg version]\<rparr>"

text \<open>A discovered app, the dictionary built by \<open>discover_apps\<close>.\<close>

record app =
  app_path :: string
  package :: string
  name :: string
  developer :: string

section \<open>Discovery\<close>

text \<open>The \<open>names\<close> dictionary of one page: a later link of a package overwrites an
  earlier one.\<close>

fun build_names ::
  "string \<Rightarrow> (string \<times> string) list \<Rightarrow> (string \<rightharpoonup> string) \<Rightarrow> (string \<rightharpoonup> string)" where
  "build_names t [] names = names"
| "build_names t ((path, pkg) # links) names =
     build_names t links
       (case re_search (pat_name path) t of
          Some m \<Rightarrow> names(pkg \<mapsto> strip (group m 1))
        | None \<Rightarrow> names)"

text \<open>The loop that appends the links of one page whose package was not seen before.\<close>

fun add_links ::
  "string \<Rightarrow> (string \<rightharpoonup> string) \<Rightarrow> (string \<times> string) list \<Rightarrow> app list \<times> string set
     \<Rightarrow> app list \<times> string set" where
  "add_links dev names [] st = st"
| "add_links dev names ((path, pkg) # links) (all_apps, seen_packages) =
     (if pkg \<notin> seen_packages
      then add_links dev names links
             (all_apps @ [\<lparr>app_path = rstrip CHR ''/'' path, package = pkg,
                            name = (case names pkg of Some n \<Rightarrow> n | None \<Rightarrow> pkg),
                            developer = dev\<rparr>],
              insert pkg seen_packages)
      else add_links dev names links (all_apps, seen_packages))"

text \<open>
  The \<open>while True\<close> loop over the pages of one developer.  The source leaves it when a
  request fails, when a page has no app link or when the page does not contain the
  marker of the next page; a site that always shows the marker keeps it running, so the
  model counts the pages down from \<open>fuel\<close> and returns \<open>None\<close> when they run out.
\<close>

fun scrape_pages ::
  "nat \<Rightarrow> env \<Rightarrow> string \<Rightarrow> nat \<Rightarrow> app list \<times> string set \<Rightarrow> (app list \<times> string set) option" where
  "scrape_pages 0 e dev page st = None"
| "scrape_pages (Suc fuel) e dev page st =
     (let dev_url = BASE @ ''/developer/'' @ quote e dev @ ''/'';
          url = (if page = 1 then dev_url else dev_url @ ''?page='' @ str_nat page)
      in case http e url of
           None \<Rightarrow> Some st
         | Some r \<Rightarrow>
             (let app_links = findall2 pat_app_link (resp_text r)
              in if app_links = [] then Some st
                 else
                   (let names = build_names (resp_text r) app_links Map.empty;
                        st1 = add_links dev names app_links st
                    in if contains (resp_text r) (''?page='' @ str_nat (page + 1))
                       then scrape_pages fuel e dev (page + 1) st1
                       else Some st1)))"

fun discover_loop ::
  "nat \<Rightarrow> env \<Rightarrow> string list \<Rightarrow> app list \<times> string set \<Rightarrow> (app list \<times> string set) option" where
  "discover_loop fuel e [] st = Some st"
| "discover_loop fuel e (dev # devs) st =
     (case scrape_pages fuel e dev 1 st of
        None \<Rightarrow> None
      | Some st1 \<Rightarrow> discover_loop fuel e devs st1)"

definition discover_apps :: "nat \<Rightarrow> env \<Rightarrow> string list option \<Rightarrow> app list option" where
  "discover_apps fuel e developers =
     map_option fst
       (discover_loop fuel e (case developers of None \<Rightarrow> DEVELOPERS | Some ds \<Rightarrow> ds)
          ([], {}))"

text \<open>
  The links the loop over the pages of one developer meets, page after page: the loop
  of \<open>scrape_pages\<close> without the bookkeeping of \<open>add_links\<close>.  A package appears under
  a developer when it is the package of one of these links.
\<close>

fun vendor_links :: "nat \<Rightarrow> env \<Rightarrow> string \<Rightarrow> nat \<Rightarrow> (string \<times> string) list option" where
  "vendor_links 0 e dev page = None"
| "vendor_links (Suc fuel) e dev page =
     (let dev_url = BASE @ ''/developer/'' @ quote e dev @ ''/'';
          url = (if page = 1 then dev_url else dev_url @ ''?page='' @ str_nat page)
      in case http e url of
           None \<Rightarrow> Some []
         | Some r \<Rightarrow>
             (let app_links = findall2 pat_app_link (resp_text r)
              in if app_links = [] then Some []
                 else if contains (resp_text r) (''?page='' @ str_nat (page + 1))
                   then map_option (\<lambda>rest. app_links @ rest) (vendor_links fuel e dev (page + 1))
                   else Some app_links))"

definition vendor_packages :: "nat \<Rightarrow> env \<Rightarrow> string \<Rightarrow> string set" where
  "vendor_packages fuel e dev =
     (case vendor_links fuel e dev 1 of Some ls \<Rightarrow> snd ` set ls | None \<Rightarrow> {})"

section \<open>Version checking\<close>

definition check_version :: "env \<Rightarrow> world \<Rightarrow> string \<Rightarrow> string option \<times> world" where
  "check_version e w path =
     (case session_get e w (BASE @ path) of
        (None, w1) \<Rightarrow> (None, w1)
      | (Some r, w1) \<Rightarrow>
          (case re_search pat_software_version (resp_text r) of
             Some m \<Rightarrow> (Some (group m 1), w1)
           | None \<Rightarrow>
               (case re_search pat_version_class (resp_text r) of
                  Some m \<Rightarrow> (Some (strip (group m 1)), w1)
                | None \<Rightarrow> (None, w1))))"

section \<open>Download\<close>

text \<open>The file name chosen for a downloaded response.\<close>

definition choose_fname :: "response \<Rightarrow> string \<Rightarrow> string" where
  "choose_fname r pkg =
     (let cd = (case resp_headers r ''content-disposition'' of Some h \<Rightarrow> h | None \<Rightarrow> [])
      in sanitize
           (case re_search pat_filename cd of
              Some m \<Rightarrow> strip (group m 1)
            | None \<Rightarrow>
                (let url_path = split_last CHR ''/'' (split_first CHR ''?'' (resp_url r))
                 in if CHR ''.'' \<in> set url_path then url_path else pkg @ ''.apk'')))"

text \<open>\<open>dest.stat().st_size / (1024 * 1024)\<close>, as an exact fraction.\<close>

definition size_mb :: "string \<Rightarrow> rat" where
  "size_mb data = of_nat (length data) / (1024 * 1024)"

text \<open>
  The second half of \<open>download_apk\<close>, from the request for the file on.  Opening
  \<open>download_dir / fname\<close> for writing raises when the name denotes a directory or the
  directory is missing.
\<close>

definition download_file ::
  "env \<Rightarrow> world \<Rightarrow> string \<Rightarrow> string \<Rightarrow> (exn + path option) \<times> world" where
  "download_file e w pkg dl_url =
     (case session_get e w dl_url of
        (None, w1) \<Rightarrow> (Inr None, w1)
      | (Some r, w1) \<Rightarrow>
          (let fname = choose_fname r pkg in
           if fname \<in> {[], ''.'', ''..''} then (Inl IsADirectoryError, w1)
           else
             (case apks w1 pkg of
                None \<Rightarrow> (Inl FileNotFoundError, w1)
              | Some dir \<Rightarrow>
                  (let w2 = w1\<lparr>apks := (apks w1)(pkg \<mapsto> dir(fname \<mapsto> resp_content r))\<rparr>
                   in if size_mb (resp_content r) < 1 / 2
                      then (Inr None, w2\<lparr>apks := (apks w2)(pkg \<mapsto> dir(fname := None))\<rparr>)
                      else (Inr (Some (pkg, fname)), w2)))))"

definition download_apk ::
  "env \<Rightarrow> world \<Rightarrow> string \<Rightarrow> string \<Rightarrow> (exn + path option) \<times> world" where
  "download_apk e w path pkg =
     (let w0 = w\<lparr>apks := (apks w)(pkg \<mapsto> Map.empty)\<rparr> in
      case session_get e w0 (BASE @ path @ ''/download/apk'') of
        (None, w1) \<Rightarrow> (Inr None, w1)
      | (Some r, w1) \<Rightarrow>
          (let r2_links = findall1 pat_r2 (resp_text r);
               d_links = findall1 pat_d (resp_text r)
           in if r2_links \<noteq> [] then download_file e w1 pkg (BASE @ unescape e (hd r2_links))
              else if d_links \<noteq> [] then download_file e w1 pkg (unescape e (hd d_links))
              else (Inr None, w1)))"

text \<open>
  The two link shapes in the words of the specification, independent of the matcher: the
  page text contains an \<open>href\<close> attribute whose value starts with \<^verbatim>\<open>/r2?u=\<close> (storage
  redirect), or with \<^verbatim>\<open>https://apkcombo.com/d?u=\<close> (CDN redirect), followed by at least one
  more character.
\<close>

definition has_storage_link :: "string \<Rightarrow> bool" where
  "has_storage_link t =
     (\<exists>pre x post. t = pre @ (''href='' @ [dq]) @ ''/r2?u='' @ x @ [dq] @ post
        \<and> x \<noteq> [] \<and> dq \<notin> set x)"

definition has_cdn_link :: "string \<Rightarrow> bool" where
  "has_cdn_link t =
     (\<exists>pre x post. t = pre @ (''href='' @ [dq]) @ ''https://apkcombo.com/d?u='' @ x @ [dq] @ post
        \<and> x \<noteq> [] \<and> dq \<notin> set x)"

section \<open>Decompilation\<close>

text \<open>\<open>struct.unpack_from("<I", data, off)[0]\<close>; \<open>None\<close> when \<open>struct.error\<close> is raised.\<close>

definition unpack_from_I :: "string \<Rightarrow> nat \<Rightarrow> int option" where
  "unpack_from_I data off =
     (if length data < off + 4 then None
      else Some (of_char (data ! off) + 256 * of_char (data ! (off + 1))
                 + 65536 * of_char (data ! (off + 2)) + 16777216 * of_char (data ! (off + 3))))"

definition dex_magic :: string where
  "dex_magic = ''dex'' @ [nl]"

text \<open>
  The loops of \<open>count_dex_classes\<close>.  Each returns the running total and whether an
  exception left the loop early: the total keeps what was added before the exception.
\<close>

fun count_inner :: "archive \<Rightarrow> string list \<Rightarrow> int \<Rightarrow> int \<times> bool" where
  "count_inner inner [] tot = (tot, False)"
| "count_inner inner (inner_name # ns) tot =
     (if endswith inner_name ''.dex'' then
        (case zread inner inner_name of
           None \<Rightarrow> (tot, True)
         | Some dex_data \<Rightarrow>
             if 96 \<le> length dex_data \<and> take 4 dex_data = dex_magic then
               (case unpack_from_I dex_data 96 of
                  None \<Rightarrow> (tot, True)
                | Some v \<Rightarrow> count_inner inner ns (tot + v))
             else count_inner inner ns tot)
      else count_inner inner ns tot)"

fun count_outer :: "env \<Rightarrow> archive \<Rightarrow> string list \<Rightarrow> int \<Rightarrow> int \<times> bool" where
  "count_outer e zf [] tot = (tot, False)"
| "count_outer e zf (nm # ns) tot =
     (if endswith nm ''.dex'' then
        (case zread zf nm of
           None \<Rightarrow> (tot, True)
         | Some data \<Rightarrow>
             if 96 \<le> length data \<and> take 4 data = dex_magic then
               (case unpack_from_I data 96 of
                  None \<Rightarrow> (tot, True)
                | Some v \<Rightarrow> count_outer e zf ns (tot + v))
             else count_outer e zf ns tot)
      else if endswith nm ''.apk'' then
        (case zread zf nm of
           None \<Rightarrow> (tot, True)
         | Some nested \<Rightarrow>
             (case unzip e nested of
                None \<Rightarrow> count_outer e zf ns tot
              | Some inner \<Rightarrow>
                  count_outer e zf ns (fst (count_inner inner (namelist inner) tot))))
      else count_outer e zf ns tot)"

text \<open>
  \<open>count_dex_classes\<close>: the outer handler catches every exception, so the result is
  always a returned total.  The file is read from the scratch directory.
\<close>

definition count_dex_classes :: "env \<Rightarrow> world \<Rightarrow> path \<Rightarrow> exn + int" where
  "count_dex_classes e w apk_path =
     (case (case apks w (fst apk_path) of Some d \<Rightarrow> d (snd apk_path) | None \<Rightarrow> None) of
        None \<Rightarrow> Inr 0
      | Some bytes \<Rightarrow>
          (case unzip e bytes of
             None \<Rightarrow> Inr 0
           | Some zf \<Rightarrow> Inr (fst (count_outer e zf (namelist zf) 0))))"

text \<open>
  \<open>monitor_decompile_progress\<close>, run over the polls the thread makes before the stop
  event ends its loop.  The percentage is the exact fraction; the source computes it in
  floating point and prints it with one decimal; division by a positive number,
  multiplication by 100 and \<open>min\<close> are monotone in both arithmetics.
\<close>

definition pct :: "int \<Rightarrow> nat \<Rightarrow> rat" where
  "pct total_classes count = min (of_nat count / of_int total_classes * 100) (999 / 10)"

fun monitor_decompile_progress :: "int \<Rightarrow> nat \<Rightarrow> poll list \<Rightarrow> event list" where
  "monitor_decompile_progress total_classes last_count [] = []"
| "monitor_decompile_progress total_classes last_count (PollError # ps) =
     monitor_decompile_progress total_classes last_count ps"
| "monitor_decompile_progress total_classes last_count (Counted count # ps) =
     (if count \<noteq> last_count then
        (if total_classes > 0
         then Progress (pct total_classes count) count total_classes
         else Decompiled count)
        # monitor_decompile_progress total_classes count ps
      else monitor_decompile_progress total_classes last_count ps)"

text \<open>The counts a sequence of polls saw, and the percentages among printed lines.\<close>

fun poll_counts :: "poll list \<Rightarrow> nat list" where
  "poll_counts [] = []"
| "poll_counts (Counted c # ps) = c # poll_counts ps"
| "poll_counts (PollError # ps) = poll_counts ps"

fun percentages :: "event list \<Rightarrow> rat list" where
  "percentages [] = []"
| "percentages (Progress q c t # evs) = q # percentages evs"
| "percentages (ev # evs) = percentages evs"

text \<open>
  \<open>decompile_apk\<close>.  The command line and the environment passed to the decompiler are
  fixed apart from the thread count, the output directory and the artifact, which are
  the arguments of \<open>jadx\<close>.  The monitor's lines come before the final 100% line, which
  is printed after \<open>subprocess.run\<close> returned and the thread was joined.
\<close>

definition decompile_apk ::
  "env \<Rightarrow> world \<Rightarrow> path \<Rightarrow> string \<Rightarrow> nat \<Rightarrow> (exn + bool) \<times> world" where
  "decompile_apk e w apk_path pkg threads =
     (let w1 = w\<lparr>sources := (sources w)(pkg \<mapsto> [])\<rparr> in
      case count_dex_classes e w1 apk_path of
        Inl x \<Rightarrow> (Inl x, w1)
      | Inr total_classes \<Rightarrow>
          (case jadx e threads pkg apk_path of
             TimedOut polls files \<Rightarrow>
               (Inl TimeoutExpired,
                w1\<lparr>sources := (sources w1)(pkg \<mapsto> files),
                   log := log w1 @ monitor_decompile_progress total_classes 0 polls\<rparr>)
           | Completed polls files \<Rightarrow>
               (let java_files = length (filter (\<lambda>f. endswith f ''.java'') files);
                    xml_files = length (filter (\<lambda>f. endswith f ''.xml'') files);
                    w2 = w1\<lparr>sources := (sources w1)(pkg \<mapsto> files),
                            log := log w1 @ monitor_decompile_progress total_classes 0 polls
                                   @ [Progress100, Output java_files xml_files]\<rparr>
                in (Inr (java_files \<noteq> 0), w2))))"

section \<open>Processing one app\<close>

text \<open>Python's truth value of \<open>current_version\<close>: neither \<open>None\<close> nor the empty string.\<close>

definition truthy :: "string option \<Rightarrow> bool" where
  "truthy v = (case v of None \<Rightarrow> False | Some s \<Rightarrow> s \<noteq> [])"

definition process_app ::
  "env \<Rightarrow> world \<Rightarrow> app \<Rightarrow> bool \<Rightarrow> nat \<Rightarrow> (exn + bool) \<times> world" where
  "process_app e w a force threads =
     (case check_version e w (app_path a) of
        (current_version, w1) \<Rightarrow>
          if truthy current_version
             \<and> get_stored_version w1 (package a) = current_version \<and> \<not> force
          then (Inr True, w1)
          else
            (case download_apk e w1 (app_path a) (package a) of
               (Inl x, w2) \<Rightarrow> (Inl x, w2)
             | (Inr None, w2) \<Rightarrow> (Inr False, w2)
             | (Inr (Some apk_path), w2) \<Rightarrow>
                 (case decompile_apk e w2 apk_path (package a) threads of
                    (Inl x, w3) \<Rightarrow> (Inl x, w3)
                  | (Inr success, w3) \<Rightarrow>
                      (let w4 = (if success \<and> truthy current_version
                                 then save_version w3 (package a) (the current_version)
                                 else w3);
                           w5 = (if apks w4 (package a) \<noteq> None
                                 then w4\<lparr>apks := (apks w4)((package a) := None)\<rparr>
                                 else w4)
                       in (Inr success, w5)))))"

subsection \<open>The version lookup in the words of the specification\<close>

text \<open>
  The two extraction strategies on their own, and the rule of the specification: the
  strategies are applied in order, the first non-empty match is returned, and none if
  both fail or the page request itself fails.
\<close>

definition structured_version :: "string \<Rightarrow> string option" where
  "structured_version t = map_option (\<lambda>m. group m 1) (re_search pat_software_version t)"

definition labeled_version :: "string \<Rightarrow> string option" where
  "labeled_version t = map_option (\<lambda>m. strip (group m 1)) (re_search pat_version_class t)"

fun first_nonempty :: "string option list \<Rightarrow> string option" where
  "first_nonempty [] = None"
| "first_nonempty (x # xs) = (if truthy x then x else first_nonempty xs)"

definition spec_check_version :: "response option \<Rightarrow> string option" where
  "spec_check_version resp =
     (case resp of
        None \<Rightarrow> None
      | Some r \<Rightarrow>
          first_nonempty [structured_version (resp_text r), labeled_version (resp_text r)])"

section \<open>The run loop\<close>

text \<open>
  The loop of \<open>main\<close> over the discovered apps, with the \<open>results\<close> dictionary, and
  the exit status computed from it.
\<close>

fun main_loop ::
  "env \<Rightarrow> world \<Rightarrow> bool \<Rightarrow> nat \<Rightarrow> app list \<Rightarrow> (string \<times> bool) list
     \<Rightarrow> (exn + (string \<times> bool) list) \<times> world" where
  "main_loop e w force threads [] results = (Inr results, w)"
| "main_loop e w force threads (a # as) results =
     (case process_app e w a force threads of
        (Inl x, w1) \<Rightarrow> (Inl x, w1)
      | (Inr ok, w1) \<Rightarrow> main_loop e w1 force threads as (AList.update (package a) ok results))"

definition exit_status :: "(string \<times> bool) list \<Rightarrow> int" where
  "exit_status results = (if length (filter (\<lambda>r. \<not> snd r) results) \<noteq> 0 then 1 else 0)"

section \<open>A worked scenario\<close>

text \<open>
  The end-to-end scenario of the specification, used to run the definitions: the app
  \<open>com.example.app\<close> with published version 2.0, a download page with both link
  shapes, a payload of \<open>n\<close> bytes, an artifact whose single DEX file declares 1450
  classes, and a decompiler run \<open>run\<close>.
\<close>

definition ex_detail_page :: string where
  "ex_detail_page = [dq] @ ''softwareVersion'' @ [dq] @ '':'' @ [dq] @ ''2.0'' @ [dq]"

definition ex_download_page :: string where
  "ex_download_page =
     ''href='' @ [dq] @ ''/r2?u=a'' @ [dq] @ '' href='' @ [dq]
       @ ''https://apkcombo.com/d?u=b'' @ [dq]"

definition ex_page :: "string \<Rightarrow> response" where
  "ex_page t = \<lparr>resp_text = t, resp_content = [], resp_url = [], resp_headers = Map.empty\<rparr>"

definition ex_file :: "nat \<Rightarrow> response" where
  "ex_file n =
     \<lparr>resp_text = [], resp_content = replicate n CHR ''x'',
      resp_url = ''https://cdn.example/app.apk?sig=1'', resp_headers = Map.empty\<rparr>"

definition ex_http :: "nat \<Rightarrow> string \<Rightarrow> response option" where
  "ex_http n u =
     (if u = BASE @ ''/app/com.example.app'' then Some (ex_page ex_detail_page)
      else if u = BASE @ ''/app/com.example.app/download/apk''
        then Some (ex_page ex_download_page)
      else if u = BASE @ ''/r2?u=a'' then Some (ex_file n)
      else None)"

definition ex_dex :: string where
  "ex_dex = dex_magic @ replicate 92 (CHR 0x00) @ [CHR 0xAA, CHR 0x05, CHR 0x00, CHR 0x00]"

definition ex_archive :: archive where
  "ex_archive =
     \<lparr>namelist = [''classes.dex''],
      zread = (\<lambda>n. if n = ''classes.dex'' then Some ex_dex else None)\<rparr>"

definition ex_env :: "nat \<Rightarrow> jadx_run \<Rightarrow> env" where
  "ex_env n run =
     \<lparr>http = ex_http n, quote = (\<lambda>s. s), unescape = (\<lambda>s. s),
      unzip = (\<lambda>b. Some ex_archive), jadx = (\<lambda>t p a. run)\<rparr>"

definition ex_world :: world where
  "ex_world = \<lparr>versions = Map.empty, apks = Map.empty, sources = Map.empty, log = []\<rparr>"

definition ex_app :: app where
  "ex_app =
     \<lparr>app_path = ''/app/com.example.app'', package = ''com.example.app'',
      name = ''Example'', developer = ''Google LLC''\<rparr>"

text \<open>A run of the decompiler that produces 1400 Java files and one XML file, and the
  start state with a version already stored.\<close>

definition ex_run :: jadx_run where
  "ex_run = Completed [Counted 700, PollError, Counted 1400, Counted 1400]
              (replicate 1400 ''a/A.java'' @ [''res/values/strings.xml''])"


text \<open>A download page with the CDN link only, and a site that serves nothing but a
  download page with the text \<open>t\<close>.\<close>

definition ex_cdn_page :: string where
  "ex_cdn_page = ''href='' @ [dq] @ ''https://apkcombo.com/d?u=b'' @ [dq]"

definition ex_env_page :: "string \<Rightarrow> env" where
  "ex_env_page t =
     \<lparr>http = (\<lambda>u. if u = BASE @ ''/app/com.example.app/download/apk''
                   then Some (ex_page t) else None),
      quote = (\<lambda>s. s), unescape = (\<lambda>s. s),
      unzip = (\<lambda>b. None), jadx = (\<lambda>t p a. TimedOut [] [])\<rparr>"




text \<open>A second app, which the site of the scenario does not know, and a run of the
  decompiler that is cut off by the timeout after one poll.\<close>

definition ex_other_app :: app where
  "ex_other_app =
     \<lparr>app_path = ''/app/com.example.other'', package = ''com.example.other'',
      name = ''Other'', developer = ''Google LLC''\<rparr>"

definition ex_timeout :: jadx_run where
  "ex_timeout = TimedOut [Counted 700] (replicate 700 ''a/A.java'')"

text \<open>A detail page whose version element holds a blank only, and a site that serves
  nothing but a detail page with the text \<open>t\<close>.\<close>

definition ex_blank_version_page :: string where
  "ex_blank_version_page = ''<span class='' @ [dq] @ ''version'' @ [dq] @ ''> </span>''"

definition ex_env_detail :: "string \<Rightarrow> env" where
  "ex_env_detail t =
     \<lparr>http = (\<lambda>u. if u = BASE @ ''/app/com.example.app'' then Some (ex_page t) else None),
      quote = (\<lambda>s. s), unescape = (\<lambda>s. s),
      unzip = (\<lambda>b. None), jadx = (\<lambda>t p a. TimedOut [] [])\<rparr>"


text \<open>
  A site with two developers.  The first page of \<open>A\<close> lists the package \<open>a.b\<close> and
  announces a second page, which lists \<open>a.b\<close> again; the only page of \<open>B\<close> lists
  \<open>a.b\<close> and \<open>c.d\<close>.
\<close>

definition ex_vendor_page1 :: string where
  "ex_vendor_page1 = ''href='' @ [dq] @ ''/x/a.b/'' @ [dq] @ '' ?page=2''"

definition ex_vendor_page2 :: string where
  "ex_vendor_page2 = ''href='' @ [dq] @ ''/w/a.b/'' @ [dq]"

definition ex_vendor_page3 :: string where
  "ex_vendor_page3 =
     ''href='' @ [dq] @ ''/y/a.b/'' @ [dq] @ '' href='' @ [dq] @ ''/z/c.d/'' @ [dq]"

definition ex_vendor_site :: env where
  "ex_vendor_site =
     \<lparr>http = (\<lambda>u. if u = BASE @ ''/developer/A/'' then Some (ex_page ex_vendor_page1)
                   else if u = BASE @ ''/developer/A/?page=2'' then Some (ex_page ex_vendor_page2)
                   else if u = BASE @ ''/developer/B/'' then Some (ex_page ex_vendor_page3)
                   else None),
      quote = (\<lambda>s. s), unescape = (\<lambda>s. s),
      unzip = (\<lambda>b. None), jadx = (\<lambda>t p a. TimedOut [] [])\<rparr>"

section \<open>Facts about the matcher\<close>

lemma ms_suffix: "y \<in> set (ms r x) \<Longrightarrow> \<exists>p. fst x = p @ fst y"
proof (induction r x arbitrary: y rule: ms.induct)
  case (1 l x)
  then have "fst y = drop (length l) (fst x)"
    by (auto split: if_splits)
  then show ?case
    by (metis append_take_drop_id)
next
  case (2 P x)
  then have "\<exists>c. fst x = c # fst y"
    by (cases "fst x") (auto split: if_splits)
  then obtain c where "fst x = c # fst y"
    by blast
  then show ?case
    by (intro exI [of _ "[c]"]) simp
next
  case (3 a b x)
  from "3.prems" obtain z where z: "z \<in> set (ms a x)" and y: "y \<in> set (ms b z)"
    by auto
  from "3.IH"(1) [OF z] obtain p where p: "fst x = p @ fst z" by blast
  from "3.IH"(2) [OF z y] obtain q where q: "fst z = q @ fst y" by blast
  show ?case
    by (rule exI [of _ "p @ q"]) (simp add: p q)
next
  case (4 a x)
  from "4.prems" have "y \<in> set (ms a x) \<or> y = x"
    by auto
  then show ?case
  proof
    assume "y \<in> set (ms a x)"
    then show ?thesis by (rule "4.IH")
  next
    assume "y = x"
    then show ?thesis by simp
  qed
next
  case (5 a x)
  from "5.prems" consider "y = x"
    | z where "z \<in> set (ms a x)" "length (fst z) < length (fst x)" "y \<in> set (ms (Star a) z)"
    by (subst (asm) ms.simps) auto
  then show ?case
  proof cases
    case 1
    then show ?thesis by simp
  next
    case 2
    from "5.IH"(1) [OF 2(1)] obtain p where p: "fst x = p @ fst z" by blast
    from 2 have "z \<in> set (filter (\<lambda>y. length (fst y) < length (fst x)) (ms a x))"
      by simp
    from "5.IH"(2) [OF this 2(3)] obtain q where q: "fst z = q @ fst y" by blast
    show ?thesis
      by (rule exI [of _ "p @ q"]) (simp add: p q)
  qed
next
  case (6 a x)
  from "6.prems" consider "y = x"
    | z where "z \<in> set (ms a x)" "length (fst z) < length (fst x)" "y \<in> set (ms (Lazy a) z)"
    by (subst (asm) ms.simps) auto
  then show ?case
  proof cases
    case 1
    then show ?thesis by simp
  next
    case 2
    from "6.IH"(1) [OF 2(1)] obtain p where p: "fst x = p @ fst z" by blast
    from 2 have "z \<in> set (filter (\<lambda>y. length (fst y) < length (fst x)) (ms a x))"
      by simp
    from "6.IH"(2) [OF this 2(3)] obtain q where q: "fst z = q @ fst y" by blast
    show ?thesis
      by (rule exI [of _ "p @ q"]) (simp add: p q)
  qed
next
  case (7 n a x)
  from "7.prems" obtain z where z: "z \<in> set (ms a x)" and "fst y = fst z"
    by auto
  with "7.IH" [OF z] show ?case by simp
qed

lemma match_at_mem: "match_at r s = Some y \<Longrightarrow> y \<in> set (ms r (s, Map.empty))"
  by (auto simp: match_at_def split: list.splits)

lemma finditer_mem:
  "m \<in> set (finditer r s) \<Longrightarrow> \<exists>t y. match_at r t = Some y \<and> m = snd y"
proof (induction r s rule: finditer.induct)
  case (1 r s)
  show ?case
  proof (cases "match_at r s")
    case None
    with "1.prems" obtain c cs where s: "s = c # cs" and m: "m \<in> set (finditer r cs)"
      by (subst (asm) finditer.simps) (auto split: list.splits)
    from "1.IH" None s m show ?thesis by blast
  next
    case (Some y)
    show ?thesis
    proof (cases "m = snd y")
      case True
      with Some show ?thesis by blast
    next
      case False
      show ?thesis
      proof (cases "length (fst y) < length s")
        case True
        with "1.prems" Some False have "m \<in> set (finditer r (fst y))"
          by (subst (asm) finditer.simps) simp
        with "1.IH" Some True show ?thesis by blast
      next
        case nolt: False
        with "1.prems" Some False obtain c cs where s: "s = c # cs"
          and m: "m \<in> set (finditer r cs)"
          by (subst (asm) finditer.simps) (auto split: list.splits)
        from "1.IH" Some nolt s m show ?thesis by blast
      qed
    qed
  qed
qed

lemma re_search_mem:
  "re_search r s = Some m \<Longrightarrow> \<exists>t y. match_at r t = Some y \<and> m = snd y"
proof (induction r s rule: re_search.induct)
  case (1 r)
  then obtain y where "match_at r [] = Some y" "m = snd y"
    by auto
  then show ?case by blast
next
  case (2 r c cs)
  show ?case
  proof (cases "match_at r (c # cs)")
    case None
    with 2 show ?thesis by simp
  next
    case (Some y)
    with "2.prems" have "m = snd y" by simp
    with Some show ?thesis by blast
  qed
qed

lemma ms_Cat_mem: "y \<in> set (ms (Cat a b) x) \<longleftrightarrow> (\<exists>z \<in> set (ms a x). y \<in> set (ms b z))"
  by auto

lemma ms_Lit_mem:
  "y \<in> set (ms (Lit l) x) \<longleftrightarrow>
     take (length l) (fst x) = l \<and> y = (drop (length l) (fst x), snd x)"
  by (cases "take (length l) (fst x) = l") simp_all

lemma ms_Grp_mem:
  "y \<in> set (ms (Grp n a) x) \<longleftrightarrow>
     (\<exists>z \<in> set (ms a x).
        y = (fst z, (snd z)(n \<mapsto> take (length (fst x) - length (fst z)) (fst x))))"
  by auto

lemma capture_prefix:
  assumes "y \<in> set (ms (Cat (Lit h) (Cat (Grp n (Cat (Lit l) b)) (Lit q))) x)"
  shows "\<exists>g. snd y n = Some (l @ g)"
proof -
  from assms obtain z1 where z1: "z1 \<in> set (ms (Lit h) x)"
    and y1: "y \<in> set (ms (Cat (Grp n (Cat (Lit l) b)) (Lit q)) z1)"
    unfolding ms_Cat_mem [of y "Lit h"] by blast
  from y1 obtain z2 where z2: "z2 \<in> set (ms (Grp n (Cat (Lit l) b)) z1)"
    and y2: "y \<in> set (ms (Lit q) z2)"
    unfolding ms_Cat_mem [of y "Grp n (Cat (Lit l) b)"] by blast
  from z2 obtain z3 where z3: "z3 \<in> set (ms (Cat (Lit l) b) z1)"
    and z2': "z2 = (fst z3, (snd z3)(n \<mapsto> take (length (fst z1) - length (fst z3)) (fst z1)))"
    unfolding ms_Grp_mem by blast
  from z3 obtain z4 where z4: "z4 \<in> set (ms (Lit l) z1)" and z3': "z3 \<in> set (ms b z4)"
    unfolding ms_Cat_mem [of z3 "Lit l"] by blast
  from z4 have l: "take (length l) (fst z1) = l" and z4': "fst z4 = drop (length l) (fst z1)"
    unfolding ms_Lit_mem by simp_all
  from ms_suffix [OF z3'] obtain p where p: "fst z4 = p @ fst z3"
    by blast
  have "fst z1 = l @ p @ fst z3"
    using l p z4' by (metis append_take_drop_id)
  then have "take (length (fst z1) - length (fst z3)) (fst z1) = l @ p"
    by simp
  moreover from y2 have "snd y = snd z2"
    unfolding ms_Lit_mem by simp
  ultimately show ?thesis
    by (simp add: z2')
qed

lemma findall1_prefix:
  assumes "u \<in> set (findall1 (Cat (Lit h) (Cat (Grp 1 (Cat (Lit l) b)) (Lit q))) t)"
  shows "startswith u l"
proof -
  let ?r = "Cat (Lit h) (Cat (Grp 1 (Cat (Lit l) b)) (Lit q))"
  from assms obtain m where m: "m \<in> set (finditer ?r t)" and u: "u = group m 1"
    by (auto simp: findall1_def)
  from finditer_mem [OF m] obtain s y where sy: "match_at ?r s = Some y" and my: "m = snd y"
    by blast
  from sy have "y \<in> set (ms ?r (s, Map.empty))"
    by (rule match_at_mem)
  from capture_prefix [OF this] obtain g where "snd y 1 = Some (l @ g)"
    by blast
  then show ?thesis
    by (simp add: u my group_def startswith_def)
qed

lemma finditer_suffix_mem:
  "m \<in> set (finditer r s) \<Longrightarrow> \<exists>pre t y. s = pre @ t \<and> match_at r t = Some y \<and> m = snd y"
proof (induction r s rule: finditer.induct)
  case (1 r s)
  show ?case
  proof (cases "match_at r s")
    case None
    with "1.prems" obtain c cs where s: "s = c # cs" and m: "m \<in> set (finditer r cs)"
      by (subst (asm) finditer.simps) (auto split: list.splits)
    from "1.IH"(1) [OF None s m] obtain pre t y where
      "cs = pre @ t" "match_at r t = Some y" "m = snd y"
      by blast
    then show ?thesis
      using s by (intro exI [of _ "c # pre"] exI [of _ t] exI [of _ y]) simp
  next
    case (Some y)
    show ?thesis
    proof (cases "m = snd y")
      case True
      with Some show ?thesis
        by (intro exI [of _ "[]"] exI [of _ s] exI [of _ y]) simp
    next
      case False
      show ?thesis
      proof (cases "length (fst y) < length s")
        case True
        with "1.prems" Some False have m: "m \<in> set (finditer r (fst y))"
          by (subst (asm) finditer.simps) simp
        from "1.IH"(2) [OF Some True m] obtain pre t z where
          t: "fst y = pre @ t" "match_at r t = Some z" "m = snd z"
          by blast
        from ms_suffix [OF match_at_mem [OF Some]] have "\<exists>p. s = p @ fst y"
          by simp
        then obtain p where "s = p @ fst y"
          by blast
        with t show ?thesis
          by (intro exI [of _ "p @ pre"] exI [of _ t] exI [of _ z]) simp
      next
        case nolt: False
        with "1.prems" Some False obtain c cs where s: "s = c # cs"
          and m: "m \<in> set (finditer r cs)"
          by (subst (asm) finditer.simps) (auto split: list.splits)
        from "1.IH"(3) [OF Some nolt s m] obtain pre t z where
          "cs = pre @ t" "match_at r t = Some z" "m = snd z"
          by blast
        then show ?thesis
          using s by (intro exI [of _ "c # pre"] exI [of _ t] exI [of _ z]) simp
      qed
    qed
  qed
qed

lemma finditer_nonempty: "match_at r s \<noteq> None \<Longrightarrow> finditer r (pre @ s) \<noteq> []"
proof (induction pre)
  case Nil
  then show ?case
    by (subst finditer.simps) auto
next
  case (Cons c pre)
  then show ?case
    by (subst finditer.simps) (auto split: option.splits)
qed

lemma ms_Cls_mem:
  "y \<in> set (ms (Cls P) x) \<longleftrightarrow> (\<exists>c. fst x = c # fst y \<and> P c \<and> snd y = snd x)"
proof (cases "fst x")
  case Nil
  then show ?thesis by simp
next
  case (Cons c cs)
  have eq: "ms (Cls P) x = (if P c then [(cs, snd x)] else [])"
    by (simp add: Cons)
  show ?thesis
    unfolding eq Cons by (cases "P c") (auto simp: prod_eq_iff)
qed

lemma ms_Star_mem:
  "z \<in> set (ms (Star a) x) \<longleftrightarrow>
     z = x \<or> (\<exists>y \<in> set (ms a x). length (fst y) < length (fst x) \<and> z \<in> set (ms (Star a) y))"
  by (subst ms.simps) auto

lemma ms_Star_Cls_sound:
  "z \<in> set (ms (Star (Cls P)) x) \<Longrightarrow> \<exists>u. fst x = u @ fst z \<and> (\<forall>c \<in> set u. P c)"
proof (induction "length (fst x)" arbitrary: x rule: less_induct)
  case less
  from less.prems have "z = x \<or> (\<exists>y \<in> set (ms (Cls P) x). length (fst y) < length (fst x)
      \<and> z \<in> set (ms (Star (Cls P)) y))"
    by (subst (asm) ms_Star_mem)
  then show ?case
  proof
    assume "z = x"
    then show ?thesis by simp
  next
    assume "\<exists>y \<in> set (ms (Cls P) x). length (fst y) < length (fst x)
      \<and> z \<in> set (ms (Star (Cls P)) y)"
    then obtain y where y: "y \<in> set (ms (Cls P) x)" "length (fst y) < length (fst x)"
      "z \<in> set (ms (Star (Cls P)) y)"
      by blast
    from y(1) obtain c where c: "fst x = c # fst y" "P c"
      unfolding ms_Cls_mem by blast
    from less.hyps [OF y(2) y(3)] obtain u where u: "fst y = u @ fst z" "\<forall>c \<in> set u. P c"
      by blast
    show ?thesis
      using c u by (intro exI [of _ "c # u"]) simp
  qed
qed

lemma ms_Star_Cls_complete:
  "\<forall>c \<in> set u. P c \<Longrightarrow> (rest, k) \<in> set (ms (Star (Cls P)) (u @ rest, k))"
proof (induction u)
  case Nil
  show ?case
    by (subst ms.simps) simp
next
  case (Cons c u)
  then have "(rest, k) \<in> set (ms (Star (Cls P)) (u @ rest, k))" and "P c"
    by simp_all
  then show ?case
    by (subst ms.simps) auto
qed

lemma link_present_sound:
  assumes "findall1 (Cat (Lit h) (Cat (Grp 1 (Cat (Lit l) (Plus (Cls (not_chr q))))) (Lit [q]))) t
             \<noteq> []"
  shows "\<exists>pre x post. t = pre @ h @ l @ x @ [q] @ post \<and> x \<noteq> [] \<and> q \<notin> set x"
proof -
  let ?r = "Cat (Lit h) (Cat (Grp 1 (Cat (Lit l) (Plus (Cls (not_chr q))))) (Lit [q]))"
  from assms have "finditer ?r t \<noteq> []"
    by (simp add: findall1_def)
  then obtain m where "m \<in> set (finditer ?r t)"
    by (cases "finditer ?r t") auto
  from finditer_suffix_mem [OF this] obtain pre s y where
    t: "t = pre @ s" and sy: "match_at ?r s = Some y"
    by blast
  from sy have y: "y \<in> set (ms ?r (s, Map.empty))"
    by (rule match_at_mem)
  from y obtain z1 where z1: "z1 \<in> set (ms (Lit h) (s, Map.empty))"
    and y1: "y \<in> set (ms (Cat (Grp 1 (Cat (Lit l) (Plus (Cls (not_chr q))))) (Lit [q])) z1)"
    unfolding ms_Cat_mem [of y "Lit h"] by blast
  from y1 obtain z2 where z2: "z2 \<in> set (ms (Grp 1 (Cat (Lit l) (Plus (Cls (not_chr q))))) z1)"
    and y2: "y \<in> set (ms (Lit [q]) z2)"
    unfolding ms_Cat_mem [of y "Grp 1 (Cat (Lit l) (Plus (Cls (not_chr q))))"] by blast
  from z2 obtain z3 where z3: "z3 \<in> set (ms (Cat (Lit l) (Plus (Cls (not_chr q)))) z1)"
    and z23: "fst z2 = fst z3"
    unfolding ms_Grp_mem by auto
  from z3 obtain z4 where z4: "z4 \<in> set (ms (Lit l) z1)"
    and z34: "z3 \<in> set (ms (Plus (Cls (not_chr q))) z4)"
    unfolding ms_Cat_mem [of z3 "Lit l"] by blast
  from z34 obtain z5 where z5: "z5 \<in> set (ms (Cls (not_chr q)) z4)"
    and z35: "z3 \<in> set (ms (Star (Cls (not_chr q))) z5)"
    unfolding ms_Cat_mem [of z3 "Cls (not_chr q)"] by blast
  from z1 have s1: "take (length h) s = h" "fst z1 = drop (length h) s"
    unfolding ms_Lit_mem by simp_all
  from z4 have s4: "take (length l) (fst z1) = l" "fst z4 = drop (length l) (fst z1)"
    unfolding ms_Lit_mem by simp_all
  from z5 obtain c where c: "fst z4 = c # fst z5" "c \<noteq> q"
    unfolding ms_Cls_mem not_chr_def by blast
  from ms_Star_Cls_sound [OF z35] obtain u where u: "fst z5 = u @ fst z3" "\<forall>c \<in> set u. c \<noteq> q"
    unfolding not_chr_def by blast
  from y2 have "take (length [q]) (fst z2) = [q]"
    unfolding ms_Lit_mem by simp
  then obtain post where post: "fst z3 = q # post"
    using z23 by (cases "fst z3") simp_all
  have "s = h @ fst z1"
    using s1 by (metis append_take_drop_id)
  moreover have "fst z1 = l @ fst z4"
    using s4 by (metis append_take_drop_id)
  ultimately have "s = h @ l @ (c # u) @ [q] @ post"
    by (simp add: c u post)
  with t have "t = pre @ h @ l @ (c # u) @ [q] @ post"
    by simp
  moreover have "c # u \<noteq> []" "q \<notin> set (c # u)"
    using c u by auto
  ultimately show ?thesis
    by blast
qed

lemma link_present_complete:
  assumes t: "t = pre @ h @ l @ x @ [q] @ post" and x: "x \<noteq> []" "q \<notin> set x"
  shows "findall1 (Cat (Lit h) (Cat (Grp 1 (Cat (Lit l) (Plus (Cls (not_chr q))))) (Lit [q]))) t
           \<noteq> []"
proof -
  let ?r = "Cat (Lit h) (Cat (Grp 1 (Cat (Lit l) (Plus (Cls (not_chr q))))) (Lit [q]))"
  from x obtain c u where cu: "x = c # u" "c \<noteq> q" "\<forall>c \<in> set u. not_chr q c"
    by (cases x) (auto simp: not_chr_def)
  let ?k = "Map.empty :: caps"
  let ?s = "h @ l @ x @ q # post"
  let ?g = "?k(1 \<mapsto> take (length (l @ x @ q # post) - length (q # post)) (l @ x @ q # post))"
  have a: "(l @ x @ q # post, ?k) \<in> set (ms (Lit h) (?s, ?k))"
    unfolding ms_Lit_mem by simp
  have b: "(x @ q # post, ?k) \<in> set (ms (Lit l) (l @ x @ q # post, ?k))"
    unfolding ms_Lit_mem by simp
  have c: "(u @ q # post, ?k) \<in> set (ms (Cls (not_chr q)) (x @ q # post, ?k))"
    unfolding ms_Cls_mem by (simp add: cu not_chr_def)
  have d: "(q # post, ?k) \<in> set (ms (Star (Cls (not_chr q))) (u @ q # post, ?k))"
    using cu(3) by (rule ms_Star_Cls_complete)
  have cd: "(q # post, ?k) \<in> set (ms (Plus (Cls (not_chr q))) (x @ q # post, ?k))"
    unfolding ms_Cat_mem [of _ "Cls (not_chr q)"] by (intro bexI [of _ "(u @ q # post, ?k)"]) (fact d, fact c)
  have e: "(q # post, ?k) \<in> set (ms (Cat (Lit l) (Plus (Cls (not_chr q)))) (l @ x @ q # post, ?k))"
    unfolding ms_Cat_mem [of _ "Lit l"] by (intro bexI [of _ "(x @ q # post, ?k)"]) (fact cd, fact b)
  have f: "(q # post, ?g)
             \<in> set (ms (Grp 1 (Cat (Lit l) (Plus (Cls (not_chr q))))) (l @ x @ q # post, ?k))"
    unfolding ms_Grp_mem by (intro bexI [of _ "(q # post, ?k)"]) (simp, fact e)
  have g: "(post, ?g) \<in> set (ms (Lit [q]) (q # post, ?g))"
    unfolding ms_Lit_mem by simp
  have fg: "(post, ?g) \<in> set (ms (Cat (Grp 1 (Cat (Lit l) (Plus (Cls (not_chr q))))) (Lit [q]))
                                 (l @ x @ q # post, ?k))"
    unfolding ms_Cat_mem [of _ "Grp 1 (Cat (Lit l) (Plus (Cls (not_chr q))))"]
    by (intro bexI [of _ "(q # post, ?g)"]) (fact g, fact f)
  have "(post, ?g) \<in> set (ms ?r (?s, ?k))"
    unfolding ms_Cat_mem [of _ "Lit h"] by (intro bexI [of _ "(l @ x @ q # post, ?k)"]) (fact fg, fact a)
  then have "ms ?r (?s, ?k) \<noteq> []"
    by (metis empty_iff empty_set)
  then have "match_at ?r ?s \<noteq> None"
    unfolding match_at_def by (cases "ms ?r (?s, ?k)") simp_all
  from finditer_nonempty [OF this, of pre] show ?thesis
    by (simp add: findall1_def t)
qed

lemma link_present_iff:
  "findall1 (Cat (Lit h) (Cat (Grp 1 (Cat (Lit l) (Plus (Cls (not_chr q))))) (Lit [q]))) t \<noteq> []
     \<longleftrightarrow> (\<exists>pre x post. t = pre @ h @ l @ x @ [q] @ post \<and> x \<noteq> [] \<and> q \<notin> set x)"
  using link_present_sound [of h l q t] link_present_complete [of t _ h l _ q] by blast

lemma storage_link_iff: "has_storage_link t \<longleftrightarrow> findall1 pat_r2 t \<noteq> []"
  unfolding has_storage_link_def pat_r2_def by (rule link_present_iff [symmetric])

lemma cdn_link_iff: "has_cdn_link t \<longleftrightarrow> findall1 pat_d t \<noteq> []"
  unfolding has_cdn_link_def pat_d_def by (rule link_present_iff [symmetric])

lemma hd_findall1_prefix:
  "findall1 (Cat (Lit h) (Cat (Grp 1 (Cat (Lit l) b)) (Lit q))) t \<noteq> [] \<Longrightarrow>
     startswith (hd (findall1 (Cat (Lit h) (Cat (Grp 1 (Cat (Lit l) b)) (Lit q))) t)) l"
  by (rule findall1_prefix [of _ h l b q t]) (rule hd_in_set)

section \<open>Basic facts\<close>

lemma size_mb_floor: "(size_mb data < 1 / 2) = (length data < 524288)"
proof -
  have "(of_nat (length data) / (1048576::rat) < 1 / 2)
          = (of_nat (length data) < (524288::rat))"
    by (simp add: field_simps)
  also have "\<dots> = (length data < 524288)"
    by (metis of_nat_less_iff of_nat_numeral)
  finally show ?thesis by (simp add: size_mb_def)
qed

lemma size_mb_floor2: "(size_mb data * 2 < 1) = (length data < 524288)"
  using size_mb_floor [of data] by (simp add: field_simps)

lemma check_version_world:
  "snd (check_version e w p) = w\<lparr>log := log w @ [Get (BASE @ p)]\<rparr>"
  by (simp add: check_version_def session_get_def split: option.splits)

lemma download_file_cases:
  "download_file e w pkg u =
     (case http e u of
        None \<Rightarrow> (Inr None, w\<lparr>log := log w @ [Get u]\<rparr>)
      | Some r \<Rightarrow>
          if choose_fname r pkg \<in> {[], ''.'', ''..''}
          then (Inl IsADirectoryError, w\<lparr>log := log w @ [Get u]\<rparr>)
          else (case apks w pkg of
                  None \<Rightarrow> (Inl FileNotFoundError, w\<lparr>log := log w @ [Get u]\<rparr>)
                | Some dir \<Rightarrow>
                    if length (resp_content r) < 524288
                    then (Inr None,
                          w\<lparr>log := log w @ [Get u],
                            apks := (apks w)(pkg \<mapsto> dir(choose_fname r pkg := None))\<rparr>)
                    else (Inr (Some (pkg, choose_fname r pkg)),
                          w\<lparr>log := log w @ [Get u],
                            apks := (apks w)(pkg \<mapsto>
                                      dir(choose_fname r pkg \<mapsto> resp_content r))\<rparr>)))"
  by (simp add: download_file_def session_get_def size_mb_floor2 Let_def split: option.splits)

lemma download_apk_cases:
  "download_apk e w path pkg =
     (case http e (BASE @ path @ ''/download/apk'') of
        None \<Rightarrow>
          (Inr None, w\<lparr>apks := (apks w)(pkg \<mapsto> Map.empty),
                        log := log w @ [Get (BASE @ path @ ''/download/apk'')]\<rparr>)
      | Some r \<Rightarrow>
          if findall1 pat_r2 (resp_text r) \<noteq> []
          then download_file e
                 (w\<lparr>apks := (apks w)(pkg \<mapsto> Map.empty),
                    log := log w @ [Get (BASE @ path @ ''/download/apk'')]\<rparr>) pkg
                 (BASE @ unescape e (hd (findall1 pat_r2 (resp_text r))))
          else if findall1 pat_d (resp_text r) \<noteq> []
          then download_file e
                 (w\<lparr>apks := (apks w)(pkg \<mapsto> Map.empty),
                    log := log w @ [Get (BASE @ path @ ''/download/apk'')]\<rparr>) pkg
                 (unescape e (hd (findall1 pat_d (resp_text r))))
          else (Inr None, w\<lparr>apks := (apks w)(pkg \<mapsto> Map.empty),
                             log := log w @ [Get (BASE @ path @ ''/download/apk'')]\<rparr>))"
  by (simp add: download_apk_def session_get_def Let_def split: option.splits)

lemma of_char_int_bounds: "0 \<le> (of_char c :: int) \<and> (of_char c :: int) < 256"
proof -
  have "(of_char c :: int) = int (of_char c)"
    by (simp add: of_nat_of_char)
  moreover have "(of_char c :: nat) < 256"
    by simp
  ultimately show ?thesis
    by linarith
qed

lemma unpack_from_I_range:
  assumes "unpack_from_I data off = Some v"
  shows "0 \<le> v \<and> v < 4294967296"
proof -
  from assms have v: "v = of_char (data ! off) + 256 * of_char (data ! (off + 1))
      + 65536 * of_char (data ! (off + 2)) + 16777216 * of_char (data ! (off + 3))"
    by (auto simp: unpack_from_I_def split: if_splits)
  show ?thesis
    using of_char_int_bounds [of "data ! off"] of_char_int_bounds [of "data ! (off + 1)"]
      of_char_int_bounds [of "data ! (off + 2)"] of_char_int_bounds [of "data ! (off + 3)"]
    unfolding v by linarith
qed

lemma count_inner_nonneg: "0 \<le> tot \<Longrightarrow> 0 \<le> fst (count_inner inner ns tot)"
proof (induction inner ns tot rule: count_inner.induct)
  case (1 inner tot)
  then show ?case by simp
next
  case (2 inner inner_name ns tot)
  have step: "0 \<le> tot + v" if "unpack_from_I d 96 = Some v" for d v
    using unpack_from_I_range [OF that] "2.prems" by simp
  show ?case
    using "2.IH" "2.prems" step by (auto split: option.splits)
qed

lemma count_outer_nonneg: "0 \<le> tot \<Longrightarrow> 0 \<le> fst (count_outer e zf ns tot)"
proof (induction e zf ns tot rule: count_outer.induct)
  case (1 e zf tot)
  then show ?case by simp
next
  case (2 e zf nm ns tot)
  have step: "0 \<le> tot + v" if "unpack_from_I d 96 = Some v" for d v
    using unpack_from_I_range [OF that] "2.prems" by simp
  show ?case
    using "2.IH" "2.prems" step by (auto split: option.splits simp: count_inner_nonneg)
qed

lemma count_dex_classes_returns: "\<exists>n. count_dex_classes e w p = Inr n \<and> 0 \<le> n"
  by (auto simp: count_dex_classes_def count_outer_nonneg split: option.splits)

lemma monitor_events:
  "ev \<in> set (monitor_decompile_progress tc lc ps) \<Longrightarrow>
     (\<exists>q c. ev = Progress q c tc) \<or> (\<exists>c. ev = Decompiled c)"
  by (induction tc lc ps rule: monitor_decompile_progress.induct) (auto split: if_splits)

lemma decompile_apk_world:
  assumes "decompile_apk e w apk pkg threads = (res, w')"
  shows "versions w' = versions w \<and> apks w' = apks w
    \<and> (\<exists>tc polls j x.
          log w' = log w @ monitor_decompile_progress tc 0 polls
                     @ (case res of Inl _ \<Rightarrow> [] | Inr s \<Rightarrow> [Progress100, Output j x])
          \<and> (\<forall>s. res = Inr s \<longrightarrow> s = (j \<noteq> 0)))"
proof -
  obtain n where n: "count_dex_classes e (w\<lparr>sources := (sources w)(pkg \<mapsto> [])\<rparr>) apk = Inr n"
    using count_dex_classes_returns by blast
  show ?thesis
  proof (cases "jadx e threads pkg apk")
    case (Completed polls files)
    let ?j = "length (filter (\<lambda>f. endswith f ''.java'') files)"
    let ?x = "length (filter (\<lambda>f. endswith f ''.xml'') files)"
    from assms n Completed have res: "res = Inr (?j \<noteq> 0)"
      and w': "w' = w\<lparr>sources := (sources w)(pkg \<mapsto> files),
                      log := log w @ monitor_decompile_progress n 0 polls
                             @ [Progress100, Output ?j ?x]\<rparr>"
      by (simp_all add: decompile_apk_def Let_def)
    have "log w' = log w @ monitor_decompile_progress n 0 polls
                     @ (case res of Inl _ \<Rightarrow> [] | Inr s \<Rightarrow> [Progress100, Output ?j ?x])
          \<and> (\<forall>s. res = Inr s \<longrightarrow> s = (?j \<noteq> 0))"
      by (simp add: res w')
    then show ?thesis
      unfolding w' by (intro conjI exI [of _ n] exI [of _ polls] exI [of _ ?j] exI [of _ ?x])
        (simp_all add: w')
  next
    case (TimedOut polls files)
    from assms n TimedOut have res: "res = Inl TimeoutExpired"
      and w': "w' = w\<lparr>sources := (sources w)(pkg \<mapsto> files),
                      log := log w @ monitor_decompile_progress n 0 polls\<rparr>"
      by (simp_all add: decompile_apk_def Let_def)
    show ?thesis
      by (intro conjI exI [of _ n] exI [of _ polls] exI [of _ 0]) (simp_all add: res w')
  qed
qed

lemma download_file_world:
  assumes "download_file e w pkg u = (res, w')"
  shows "versions w' = versions w \<and> sources w' = sources w \<and> log w' = log w @ [Get u]
    \<and> (\<forall>q. q \<noteq> pkg \<longrightarrow> apks w' q = apks w q)
    \<and> (res = Inr None \<longrightarrow> apks w pkg = Some Map.empty \<longrightarrow> apks w' pkg = Some Map.empty)
    \<and> (\<forall>p. res = Inr (Some p) \<longrightarrow> fst p = pkg \<and> apks w' pkg \<noteq> None)"
proof -
  have eq: "(res, w') = download_file e w pkg u"
    using assms by simp
  show ?thesis
  proof (cases "http e u")
    case None
    have "res = Inr None" "w' = w\<lparr>log := log w @ [Get u]\<rparr>"
      using eq by (simp_all add: download_file_cases None)
    then show ?thesis by simp
  next
    case (Some r)
    show ?thesis
    proof (cases "choose_fname r pkg \<in> {[], ''.'', ''..''}")
      case True
      have "res = Inl IsADirectoryError" "w' = w\<lparr>log := log w @ [Get u]\<rparr>"
        using eq True by (simp_all add: download_file_cases Some del: insert_iff)
      then show ?thesis by simp
    next
      case proper: False
      show ?thesis
      proof (cases "apks w pkg")
        case None
        have "res = Inl FileNotFoundError" "w' = w\<lparr>log := log w @ [Get u]\<rparr>"
          using eq proper by (simp_all add: download_file_cases Some None del: insert_iff)
        then show ?thesis by simp
      next
        case dir: (Some dir)
        show ?thesis
        proof (cases "length (resp_content r) < 524288")
          case True
          have "res = Inr None"
            "w' = w\<lparr>log := log w @ [Get u],
                    apks := (apks w)(pkg \<mapsto> dir(choose_fname r pkg := None))\<rparr>"
            using eq proper True by (simp_all add: download_file_cases Some dir del: insert_iff)
          then show ?thesis using dir by simp
        next
          case False
          have "res = Inr (Some (pkg, choose_fname r pkg))"
            "w' = w\<lparr>log := log w @ [Get u],
                    apks := (apks w)(pkg \<mapsto> dir(choose_fname r pkg \<mapsto> resp_content r))\<rparr>"
            using eq proper False by (simp_all add: download_file_cases Some dir del: insert_iff)
          then show ?thesis by simp
        qed
      qed
    qed
  qed
qed

lemma download_apk_world:
  assumes "download_apk e w path pkg = (res, w')"
  shows "versions w' = versions w \<and> sources w' = sources w
    \<and> (\<exists>evs. log w' = log w @ Get (BASE @ path @ ''/download/apk'') # evs
           \<and> (\<forall>ev \<in> set evs. \<exists>u. ev = Get u))
    \<and> (\<forall>q. q \<noteq> pkg \<longrightarrow> apks w' q = apks w q)
    \<and> (res = Inr None \<longrightarrow> apks w' pkg = Some Map.empty)
    \<and> (\<forall>p. res = Inr (Some p) \<longrightarrow> fst p = pkg \<and> apks w' pkg \<noteq> None)"
proof -
  let ?w0 = "w\<lparr>apks := (apks w)(pkg \<mapsto> Map.empty),
               log := log w @ [Get (BASE @ path @ ''/download/apk'')]\<rparr>"
  have eq: "(res, w') = download_apk e w path pkg"
    using assms by simp
  have "(res = Inr None \<and> w' = ?w0) \<or> (\<exists>u. download_file e ?w0 pkg u = (res, w'))"
  proof (cases "http e (BASE @ path @ ''/download/apk'')")
    case None
    then show ?thesis using eq by (simp add: download_apk_cases)
  next
    case (Some r)
    show ?thesis
    proof (cases "findall1 pat_r2 (resp_text r) \<noteq> []")
      case True
      then have "download_file e ?w0 pkg (BASE @ unescape e (hd (findall1 pat_r2 (resp_text r))))
                   = (res, w')"
        using eq Some by (simp add: download_apk_cases)
      then show ?thesis by blast
    next
      case no_r2: False
      show ?thesis
      proof (cases "findall1 pat_d (resp_text r) \<noteq> []")
        case True
        then have "download_file e ?w0 pkg (unescape e (hd (findall1 pat_d (resp_text r))))
                     = (res, w')"
          using eq Some no_r2 by (simp add: download_apk_cases)
        then show ?thesis by blast
      next
        case False
        then show ?thesis using eq Some no_r2 by (simp add: download_apk_cases)
      qed
    qed
  qed
  then show ?thesis
  proof
    assume "res = Inr None \<and> w' = ?w0"
    then show ?thesis by simp
  next
    assume "\<exists>u. download_file e ?w0 pkg u = (res, w')"
    then obtain u where u: "download_file e ?w0 pkg u = (res, w')" ..
    from download_file_world [OF u] show ?thesis
      by auto
  qed
qed

lemma get_stored_version_log [simp]:
  "get_stored_version (w\<lparr>log := l\<rparr>) pkg = get_stored_version w pkg"
  by (simp add: get_stored_version_def)

lemma process_app_cases [consumes 1, case_names skip fetch_exn fetch_fail dec_exn dec]:
  assumes run: "process_app e w a force threads = (res, w')"
  obtains
    (skip) "truthy (fst (check_version e w (app_path a)))"
      "get_stored_version w (package a) = fst (check_version e w (app_path a))"
      "\<not> force" "res = Inr True" "w' = w\<lparr>log := log w @ [Get (BASE @ app_path a)]\<rparr>"
  | (fetch_exn) x where
      "download_apk e (w\<lparr>log := log w @ [Get (BASE @ app_path a)]\<rparr>) (app_path a) (package a)
         = (Inl x, w')"
      "res = Inl x"
  | (fetch_fail)
      "download_apk e (w\<lparr>log := log w @ [Get (BASE @ app_path a)]\<rparr>) (app_path a) (package a)
         = (Inr None, w')"
      "res = Inr False"
  | (dec_exn) apk w2 x where
      "download_apk e (w\<lparr>log := log w @ [Get (BASE @ app_path a)]\<rparr>) (app_path a) (package a)
         = (Inr (Some apk), w2)"
      "decompile_apk e w2 apk (package a) threads = (Inl x, w')"
      "res = Inl x"
  | (dec) apk w2 success w3 where
      "download_apk e (w\<lparr>log := log w @ [Get (BASE @ app_path a)]\<rparr>) (app_path a) (package a)
         = (Inr (Some apk), w2)"
      "decompile_apk e w2 apk (package a) threads = (Inr success, w3)"
      "res = Inr success"
      "success \<and> truthy (fst (check_version e w (app_path a))) \<Longrightarrow>
         w' = (save_version w3 (package a) (the (fst (check_version e w (app_path a)))))
                \<lparr>apks := (apks w3)(package a := None)\<rparr>"
      "\<not> (success \<and> truthy (fst (check_version e w (app_path a)))) \<Longrightarrow>
         w' = w3\<lparr>apks := (apks w3)(package a := None)\<rparr>"
proof -
  let ?w1 = "w\<lparr>log := log w @ [Get (BASE @ app_path a)]\<rparr>"
  obtain c where cv: "check_version e w (app_path a) = (c, ?w1)"
    using check_version_world [of e w "app_path a"]
    by (cases "check_version e w (app_path a)") simp
  have c: "fst (check_version e w (app_path a)) = c"
    by (simp add: cv)
  note skip' = skip [unfolded c]
  note dec' = dec [unfolded c]
  show thesis
  proof (cases "truthy c \<and> get_stored_version w (package a) = c \<and> \<not> force")
    case True
    with run cv have "res = Inr True" "w' = ?w1"
      by (auto simp: process_app_def)
    with True skip' show thesis by blast
  next
    case noskip: False
    obtain dres w2 where dl: "download_apk e ?w1 (app_path a) (package a) = (dres, w2)"
      by (cases "download_apk e ?w1 (app_path a) (package a)")
    show thesis
    proof (cases dres)
      case (Inl x)
      with run cv noskip dl have "res = Inl x" "w' = w2"
        by (auto simp: process_app_def)
      with fetch_exn dl Inl show thesis by blast
    next
      case (Inr found)
      show thesis
      proof (cases found)
        case None
        with run cv noskip dl Inr have "res = Inr False" "w' = w2"
          by (auto simp: process_app_def)
        with fetch_fail dl Inr None show thesis by blast
      next
        case (Some apk)
        obtain cres w3 where dc: "decompile_apk e w2 apk (package a) threads = (cres, w3)"
          by (cases "decompile_apk e w2 apk (package a) threads")
        have apks3: "apks w3 = apks w2"
          using decompile_apk_world [OF dc] by simp
        have dir: "apks w2 (package a) \<noteq> None"
          using download_apk_world [OF dl] Inr Some by simp
        show thesis
        proof (cases cres)
          case (Inl x)
          with run cv noskip dl \<open>dres = Inr found\<close> Some dc have "res = Inl x" "w' = w3"
            by (auto simp: process_app_def)
          with dec_exn dl \<open>dres = Inr found\<close> Some dc Inl show thesis by blast
        next
          case (Inr success)
          have r: "res = Inr success"
            using run cv noskip dl \<open>dres = Inr found\<close> Some dc Inr
            by (auto simp: process_app_def Let_def split: if_splits)
          have w1: "w' = (save_version w3 (package a) (the c))
                           \<lparr>apks := (apks w3)(package a := None)\<rparr>"
            if "success \<and> truthy c"
            using that run cv noskip dl \<open>dres = Inr found\<close> Some dc Inr dir apks3
            by (auto simp: process_app_def Let_def save_version_def split: if_splits)
          have w2: "w' = w3\<lparr>apks := (apks w3)(package a := None)\<rparr>"
            if "\<not> (success \<and> truthy c)"
            using that run cv noskip dl \<open>dres = Inr found\<close> Some dc Inr dir apks3
            by (auto simp: process_app_def Let_def split: if_splits)
          from dec' [OF _ _ r w1 w2] dl \<open>dres = Inr found\<close> Some dc Inr show thesis
            by blast
        qed
      qed
    qed
  qed
qed

lemma truthy_Some: "truthy c \<Longrightarrow> \<exists>v. c = Some v \<and> v \<noteq> []"
  by (cases c) (simp_all add: truthy_def)

lemma fetch_log:
  assumes "download_apk e (w\<lparr>log := log w @ [Get (BASE @ p)]\<rparr>) p pkg = (r, w2)"
  shows "\<exists>gets. log w2 = log w @ Get (BASE @ p) # Get (BASE @ p @ ''/download/apk'') # gets
           \<and> (\<forall>ev \<in> set gets. \<exists>u. ev = Get u)"
  using download_apk_world [OF assms] by auto

subsection \<open>The scenario, evaluated\<close>

lemma ex_search_version:
  "map_option (\<lambda>m. group m 1) (re_search pat_software_version ex_detail_page) = Some ''2.0''"
  by (simp add: ms.simps pat_software_version_def ex_detail_page_def match_at_def dq_def is_space_def
        not_chr_def group_def)

lemma ex_check_version:
  "check_version (ex_env n run) w ''/app/com.example.app''
     = (Some ''2.0'', w\<lparr>log := log w @ [Get (BASE @ ''/app/com.example.app'')]\<rparr>)"
  using ex_search_version
  by (auto simp: check_version_def session_get_def ex_env_def ex_http_def ex_page_def
        split: option.splits)

lemma ex_findall_r2: "findall1 pat_r2 ex_download_page = [''/r2?u=a'']"
  by (simp add: findall1_def finditer.simps ms.simps pat_r2_def ex_download_page_def match_at_def dq_def not_chr_def group_def)

lemma ex_findall_d: "findall1 pat_d ex_download_page = [''https://apkcombo.com/d?u=b'']"
  by (simp add: findall1_def finditer.simps ms.simps pat_d_def ex_download_page_def match_at_def dq_def not_chr_def group_def)

lemma ex_choose_fname: "choose_fname (ex_file n) pkg = ''app.apk''"
  by (simp add: ms.simps choose_fname_def ex_file_def pat_filename_def match_at_def split_last_def
        split_first_def sanitize_def unsafe_char_def dq_def bslash_def)

lemma ex_unpack: "unpack_from_I ex_dex 96 = Some 1450"
  by (simp add: unpack_from_I_def ex_dex_def dex_magic_def nth_append nl_def)

lemma ex_download_apk:
  "download_apk (ex_env n run) w ''/app/com.example.app'' ''com.example.app'' =
     (if n < 524288
      then (Inr None,
            w\<lparr>apks := (apks w)(''com.example.app'' \<mapsto> Map.empty),
              log := log w @ [Get (BASE @ ''/app/com.example.app/download/apk''),
                              Get (BASE @ ''/r2?u=a'')]\<rparr>)
      else (Inr (Some (''com.example.app'', ''app.apk'')),
            w\<lparr>apks := (apks w)(''com.example.app'' \<mapsto> [''app.apk'' \<mapsto> replicate n CHR ''x'']),
              log := log w @ [Get (BASE @ ''/app/com.example.app/download/apk''),
                              Get (BASE @ ''/r2?u=a'')]\<rparr>))"
proof -
  have page: "http (ex_env n run) (BASE @ ''/app/com.example.app/download/apk'')
                = Some (ex_page ex_download_page)"
    by (simp add: ex_env_def ex_http_def BASE_def)
  have got: "http (ex_env n run) (BASE @ ''/r2?u=a'') = Some (ex_file n)"
    by (simp add: ex_env_def ex_http_def BASE_def)
  have un: "unescape (ex_env n run) = (\<lambda>s. s)"
    by (simp add: ex_env_def)
  have body: "resp_text (ex_page ex_download_page) = ex_download_page"
    by (simp add: ex_page_def)
  have content: "resp_content (ex_file n) = replicate n CHR ''x''"
    by (simp add: ex_file_def)
  show ?thesis
    by (simp add: download_apk_cases download_file_cases page got un body ex_findall_r2 content
          ex_choose_fname)
qed

lemma ex_count_outer: "count_outer e ex_archive (namelist ex_archive) 0 = (1450, False)"
  by (simp add: ex_archive_def endswith_def ex_unpack)
     (simp add: ex_dex_def dex_magic_def)

lemma ex_count_dex_classes:
  assumes "apks w (fst p) \<noteq> None" and "the (apks w (fst p)) (snd p) \<noteq> None"
  shows "count_dex_classes (ex_env n run) w p = Inr 1450"
  using assms by (auto simp add: count_dex_classes_def ex_env_def ex_count_outer)

lemma ex_monitor:
  "monitor_decompile_progress 1450 0 [Counted 700, PollError, Counted 1400, Counted 1400]
     = [Progress (1400 / 29) 700 1450, Progress (2800 / 29) 1400 1450]"
  by (simp add: pct_def)

lemma ex_decompile_apk:
  assumes "apks w ''com.example.app'' \<noteq> None"
    and "the (apks w ''com.example.app'') ''app.apk'' \<noteq> None"
  shows "decompile_apk (ex_env n ex_run) w (''com.example.app'', ''app.apk'') ''com.example.app'' t
     = (Inr True,
        w\<lparr>sources := (sources w)(''com.example.app'' \<mapsto>
                        replicate 1400 ''a/A.java'' @ [''res/values/strings.xml'']),
          log := log w @ [Progress (1400 / 29) 700 1450, Progress (2800 / 29) 1400 1450,
                          Progress100, Output 1400 1]\<rparr>)"
proof -
  have cnt: "count_dex_classes (ex_env n ex_run) (w\<lparr>sources := s\<rparr>)
               (''com.example.app'', ''app.apk'') = Inr 1450" for s
    using assms by (intro ex_count_dex_classes) simp_all
  have run: "jadx (ex_env n ex_run) t ''com.example.app'' (''com.example.app'', ''app.apk'')
               = ex_run"
    by (simp add: ex_env_def)
  have java: "length (filter (\<lambda>f. endswith f ''.java'')
                (replicate 1400 ''a/A.java'' @ [''res/values/strings.xml''])) = 1400"
    by (simp add: endswith_def)
  have ne: "filter (\<lambda>f. endswith f ''.java'')
                (replicate 1400 ''a/A.java'' @ [''res/values/strings.xml'']) \<noteq> []"
    by (simp add: endswith_def)
  have xml: "length (filter (\<lambda>f. endswith f ''.xml'')
                (replicate 1400 ''a/A.java'' @ [''res/values/strings.xml''])) = 1"
    by (simp add: endswith_def)
  show ?thesis
    unfolding decompile_apk_def Let_def cnt run
    by (simp add: ex_run_def ex_monitor java xml ne del: monitor_decompile_progress.simps
          filter.simps filter_append)
qed



lemma ex_no_stored_version: "get_stored_version ex_world ''com.example.app'' = None"
  by (simp add: get_stored_version_def ex_world_def)

lemma ex_process_app:
  assumes "get_stored_version w ''com.example.app'' \<noteq> Some ''2.0'' \<or> force"
  shows "process_app (ex_env 12582912 ex_run) w ex_app force t =
     (Inr True,
      w\<lparr>versions := (versions w)(''com.example.app.version'' \<mapsto> ''2.0''),
        apks := (apks w)(''com.example.app'' := None),
        sources := (sources w)(''com.example.app'' \<mapsto>
                      replicate 1400 ''a/A.java'' @ [''res/values/strings.xml'']),
        log := log w @ [Get (BASE @ ''/app/com.example.app''),
                        Get (BASE @ ''/app/com.example.app/download/apk''),
                        Get (BASE @ ''/r2?u=a''),
                        Progress (1400 / 29) 700 1450, Progress (2800 / 29) 1400 1450,
                        Progress100, Output 1400 1,
                        Saved ''com.example.app'' ''2.0'']\<rparr>)"
  using assms
  by (auto simp add: process_app_def ex_app_def ex_check_version ex_download_apk
        ex_decompile_apk truthy_def Let_def save_version_def)

lemma ex_decompile_failed:
  assumes "apks w ''com.example.app'' \<noteq> None"
    and "the (apks w ''com.example.app'') ''app.apk'' \<noteq> None"
  shows "decompile_apk (ex_env n (Completed [] [])) w (''com.example.app'', ''app.apk'')
           ''com.example.app'' t
     = (Inr False,
        w\<lparr>sources := (sources w)(''com.example.app'' \<mapsto> []),
          log := log w @ [Progress100, Output 0 0]\<rparr>)"
proof -
  have cnt: "count_dex_classes (ex_env n (Completed [] [])) (w\<lparr>sources := s\<rparr>)
               (''com.example.app'', ''app.apk'') = Inr 1450" for s
    using assms by (intro ex_count_dex_classes) simp_all
  show ?thesis
    unfolding decompile_apk_def Let_def cnt
    by (simp add: ex_env_def)
qed

lemma ex_process_app_failed:
  "process_app (ex_env 12582912 (Completed [] [])) ex_world ex_app False t =
     (Inr False,
      ex_world\<lparr>sources := [''com.example.app'' \<mapsto> []],
        log := [Get (BASE @ ''/app/com.example.app''),
                Get (BASE @ ''/app/com.example.app/download/apk''),
                Get (BASE @ ''/r2?u=a''), Progress100, Output 0 0]\<rparr>)"
  by (auto simp add: process_app_def ex_app_def ex_check_version ex_download_apk
        ex_decompile_failed truthy_def Let_def get_stored_version_def ex_world_def)

lemma ex_process_app_undersized:
  "process_app (ex_env 102400 run) ex_world ex_app False t =
     (Inr False,
      ex_world\<lparr>apks := [''com.example.app'' \<mapsto> Map.empty],
        log := [Get (BASE @ ''/app/com.example.app''),
                Get (BASE @ ''/app/com.example.app/download/apk''),
                Get (BASE @ ''/r2?u=a'')]\<rparr>)"
  by (auto simp add: process_app_def ex_app_def ex_check_version ex_download_apk
        truthy_def Let_def get_stored_version_def ex_world_def)

lemma ex_cdn_page_links:
  "findall1 pat_r2 ex_cdn_page = []"
  "findall1 pat_d ex_cdn_page = [''https://apkcombo.com/d?u=b'']"
  by (simp_all add: findall1_def finditer.simps ms.simps pat_r2_def pat_d_def ex_cdn_page_def
        match_at_def dq_def not_chr_def group_def)

lemma ex_empty_page_links: "findall1 pat_r2 [] = []" "findall1 pat_d [] = []"
  by (simp_all add: findall1_def finditer.simps ms.simps pat_r2_def pat_d_def match_at_def)


lemma pct_mono: "0 < tc \<Longrightarrow> c \<le> c' \<Longrightarrow> pct tc c \<le> pct tc c'"
proof -
  assume tc: "0 < tc" and c: "c \<le> c'"
  have "(of_nat c :: rat) \<le> of_nat c'"
    using c by simp
  then have "(of_nat c :: rat) / of_int tc \<le> of_nat c' / of_int tc"
    using tc by (simp add: divide_right_mono)
  then have "(of_nat c :: rat) / of_int tc * 100 \<le> of_nat c' / of_int tc * 100"
    by (rule mult_right_mono) simp
  then show ?thesis
    unfolding pct_def by (rule min.mono) simp
qed

lemma monitor_reports:
  "ev \<in> set (monitor_decompile_progress tc lc polls) \<Longrightarrow>
     (if 0 < tc then \<exists>c \<in> set (poll_counts polls). ev = Progress (pct tc c) c tc
      else \<exists>c \<in> set (poll_counts polls). ev = Decompiled c)"
  by (induction tc lc polls rule: monitor_decompile_progress.induct)
     (auto split: if_splits)

lemma percentages_mem:
  "q \<in> set (percentages evs) \<longleftrightarrow> (\<exists>c t. Progress q c t \<in> set evs)"
  by (induction evs rule: percentages.induct) auto

lemma monitor_percentages:
  assumes "q \<in> set (percentages (monitor_decompile_progress tc lc polls))"
  shows "0 < tc \<and> (\<exists>c \<in> set (poll_counts polls). q = pct tc c)"
proof -
  from assms obtain c t where ev: "Progress q c t \<in> set (monitor_decompile_progress tc lc polls)"
    unfolding percentages_mem by blast
  from monitor_reports [OF ev] show ?thesis
    by (auto split: if_splits)
qed

lemma monitor_sorted:
  assumes "sorted (poll_counts polls)"
  shows "sorted (percentages (monitor_decompile_progress tc lc polls))"
  using assms
proof (induction tc lc polls rule: monitor_decompile_progress.induct)
  case (1 tc lc)
  then show ?case by simp
next
  case (2 tc lc ps)
  then show ?case by simp
next
  case (3 tc lc c ps)
  from "3.prems" have rest: "sorted (poll_counts ps)" and le: "\<forall>c' \<in> set (poll_counts ps). c \<le> c'"
    by simp_all
  show ?case
  proof (cases "c \<noteq> lc")
    case False
    with "3.IH"(2) rest show ?thesis by simp
  next
    case True
    show ?thesis
    proof (cases "0 < tc")
      case False
      with True "3.IH"(1) rest show ?thesis by simp
    next
      case pos: True
      have "pct tc c \<le> q" if "q \<in> set (percentages (monitor_decompile_progress tc c ps))" for q
      proof -
        from monitor_percentages [OF that] obtain c' where "c' \<in> set (poll_counts ps)" "q = pct tc c'"
          by blast
        with le pos show ?thesis
          by (simp add: pct_mono)
      qed
      with True pos "3.IH"(1) rest show ?thesis
        by simp
    qed
  qed
qed

lemma pct_below_100: "pct tc c < 100"
proof -
  have "pct tc c \<le> 999 / 10"
    unfolding pct_def by (rule min.cobounded2)
  then show ?thesis by simp
qed

lemma ex_decompile_timeout:
  assumes "apks w ''com.example.app'' \<noteq> None"
    and "the (apks w ''com.example.app'') ''app.apk'' \<noteq> None"
  shows "decompile_apk (ex_env n ex_timeout) w (''com.example.app'', ''app.apk'')
           ''com.example.app'' t
     = (Inl TimeoutExpired,
        w\<lparr>sources := (sources w)(''com.example.app'' \<mapsto> replicate 700 ''a/A.java''),
          log := log w @ [Progress (1400 / 29) 700 1450]\<rparr>)"
proof -
  have cnt: "count_dex_classes (ex_env n ex_timeout) (w\<lparr>sources := s\<rparr>)
               (''com.example.app'', ''app.apk'') = Inr 1450" for s
    using assms by (intro ex_count_dex_classes) simp_all
  show ?thesis
    unfolding decompile_apk_def Let_def cnt
    by (simp add: ex_env_def ex_timeout_def pct_def)
qed

lemma ex_process_app_timeout:
  "process_app (ex_env 12582912 ex_timeout) ex_world ex_app False t =
     (Inl TimeoutExpired,
      ex_world\<lparr>apks := [''com.example.app'' \<mapsto> [''app.apk'' \<mapsto> replicate 12582912 CHR ''x'']],
        sources := [''com.example.app'' \<mapsto> replicate 700 ''a/A.java''],
        log := [Get (BASE @ ''/app/com.example.app''),
                Get (BASE @ ''/app/com.example.app/download/apk''),
                Get (BASE @ ''/r2?u=a''), Progress (1400 / 29) 700 1450]\<rparr>)"
  by (auto simp add: process_app_def ex_app_def ex_check_version ex_download_apk
        ex_decompile_timeout truthy_def Let_def get_stored_version_def ex_world_def)

lemma ex_process_other:
  "process_app (ex_env n run) w ex_other_app False t =
     (Inr False,
      w\<lparr>apks := (apks w)(''com.example.other'' \<mapsto> Map.empty),
        log := log w @ [Get (BASE @ ''/app/com.example.other''),
                Get (BASE @ ''/app/com.example.other/download/apk'')]\<rparr>)"
proof -
  have cv: "check_version (ex_env n run) w ''/app/com.example.other''
      = (None, w\<lparr>log := log w @ [Get (BASE @ ''/app/com.example.other'')]\<rparr>)"
    by (simp add: check_version_def session_get_def ex_env_def ex_http_def BASE_def)
  have dl: "http (ex_env n run) (BASE @ ''/app/com.example.other/download/apk'') = None"
    by (simp add: ex_env_def ex_http_def BASE_def)
  show ?thesis
    by (simp add: process_app_def ex_other_app_def cv truthy_def download_apk_cases dl)
qed


lemma capture_nonempty:
  assumes "y \<in> set (ms (Cat (Grp n (Plus (Cls P))) (Lit d)) x)"
  shows "\<exists>g. snd y n = Some g \<and> g \<noteq> []"
proof -
  from assms obtain z where z: "z \<in> set (ms (Grp n (Plus (Cls P))) x)"
    and y: "y \<in> set (ms (Lit d) z)"
    unfolding ms_Cat_mem [of y "Grp n (Plus (Cls P))"] by blast
  from z obtain u where u: "u \<in> set (ms (Plus (Cls P)) x)"
    and zu: "z = (fst u, (snd u)(n \<mapsto> take (length (fst x) - length (fst u)) (fst x)))"
    unfolding ms_Grp_mem by blast
  from u obtain v where v: "v \<in> set (ms (Cls P) x)" and uv: "u \<in> set (ms (Star (Cls P)) v)"
    unfolding ms_Cat_mem [of u "Cls P"] by blast
  from v obtain c where c: "fst x = c # fst v"
    unfolding ms_Cls_mem by blast
  from ms_suffix [OF uv] obtain p where p: "fst v = p @ fst u"
    by blast
  have "take (length (fst x) - length (fst u)) (fst x) = c # p"
    by (simp add: c p)
  moreover from y have "snd y = snd z"
    unfolding ms_Lit_mem by simp
  ultimately show ?thesis
    by (simp add: zu)
qed

lemma structured_version_nonempty:
  assumes "structured_version t = Some v"
  shows "v \<noteq> []"
proof -
  from assms obtain m where m: "re_search pat_software_version t = Some m" and v: "v = group m 1"
    by (auto simp: structured_version_def)
  from re_search_mem [OF m] obtain s y where sy: "match_at pat_software_version s = Some y"
    and my: "m = snd y"
    by blast
  from match_at_mem [OF sy] have "y \<in> set (ms pat_software_version (s, Map.empty))" .
  then obtain z1 where
    "y \<in> set (ms (Cat (Star (Cls is_space)) (Cat (Lit '':'') (Cat (Star (Cls is_space))
            (Cat (Lit [dq]) (Cat (Grp 1 (Plus (Cls (not_chr dq)))) (Lit [dq])))))) z1)"
    unfolding pat_software_version_def ms_Cat_mem [of y "Lit ([dq] @ ''softwareVersion'' @ [dq])"]
    by blast
  then obtain z2 where
    "y \<in> set (ms (Cat (Lit '':'') (Cat (Star (Cls is_space))
            (Cat (Lit [dq]) (Cat (Grp 1 (Plus (Cls (not_chr dq)))) (Lit [dq]))))) z2)"
    unfolding ms_Cat_mem [of y "Star (Cls is_space)"] by blast
  then obtain z3 where
    "y \<in> set (ms (Cat (Star (Cls is_space))
            (Cat (Lit [dq]) (Cat (Grp 1 (Plus (Cls (not_chr dq)))) (Lit [dq])))) z3)"
    unfolding ms_Cat_mem [of y "Lit '':''"] by blast
  then obtain z4 where
    "y \<in> set (ms (Cat (Lit [dq]) (Cat (Grp 1 (Plus (Cls (not_chr dq)))) (Lit [dq]))) z4)"
    unfolding ms_Cat_mem [of y "Star (Cls is_space)"] by blast
  then obtain z5 where
    "y \<in> set (ms (Cat (Grp 1 (Plus (Cls (not_chr dq)))) (Lit [dq])) z5)"
    unfolding ms_Cat_mem [of y "Lit [dq]"] by blast
  from capture_nonempty [OF this] obtain g where "snd y 1 = Some g" "g \<noteq> []"
    by blast
  then show ?thesis
    by (simp add: v my group_def)
qed

lemma check_version_strategies:
  "fst (check_version e w path) =
     (case http e (BASE @ path) of
        None \<Rightarrow> None
      | Some r \<Rightarrow>
          (case structured_version (resp_text r) of
             Some v \<Rightarrow> Some v
           | None \<Rightarrow> labeled_version (resp_text r)))"
  by (simp add: check_version_def session_get_def structured_version_def labeled_version_def
        split: option.splits)

section \<open>Artifact fetcher: the size floor\<close>

text \<open>
  Claim C5.  Whenever \<open>download_apk\<close> got as far as requesting the file at \<open>u\<close> and
  writing the response \<open>r\<close> under a proper file name: a payload below 0.5 MB is deleted
  again (the scratch directory is left empty) and the fetch returns \<open>None\<close>; a payload
  of 0.5 MB or more stays in the scratch directory and its path is returned.
\<close>

theorem size_floor:
  assumes run: "download_apk e w path pkg = (res, w')"
    and requested: "log w' = log w @ [Get (BASE @ path @ ''/download/apk''), Get u]"
    and received: "http e u = Some r"
    and fname: "choose_fname r pkg \<notin> {[], ''.'', ''..''}"
  shows "(size_mb (resp_content r) < 1 / 2 \<longrightarrow>
            res = Inr None \<and> apks w' pkg = Some Map.empty)
       \<and> (\<not> size_mb (resp_content r) < 1 / 2 \<longrightarrow>
            res = Inr (Some (pkg, choose_fname r pkg))
            \<and> apks w' pkg = Some [choose_fname r pkg \<mapsto> resp_content r])"
  using assms
  by (auto simp: download_apk_cases download_file_cases size_mb_floor2
           split: option.splits if_splits)

text \<open>The floor at work: 100 KB is rejected, 12 MB is kept.\<close>

theorem size_floor_witness:
  "fst (download_apk (ex_env 102400 (Completed [] [])) ex_world ''/app/com.example.app''
          ''com.example.app'') = Inr None
   \<and> fst (download_apk (ex_env 12582912 (Completed [] [])) ex_world ''/app/com.example.app''
          ''com.example.app'') = Inr (Some (''com.example.app'', ''app.apk''))"
proof -
  let ?u = "BASE @ ''/r2?u=a''"
  let ?d = "\<lambda>n. download_apk (ex_env n (Completed [] [])) ex_world ''/app/com.example.app''
                  ''com.example.app''"
  have small: "size_mb (resp_content (ex_file 102400)) < 1 / 2"
    unfolding size_mb_floor by (simp add: ex_file_def)
  have big: "\<not> size_mb (resp_content (ex_file 12582912)) < 1 / 2"
    unfolding size_mb_floor by (simp add: ex_file_def)
  have got: "http (ex_env n (Completed [] [])) ?u = Some (ex_file n)" for n
    by (simp add: ex_env_def ex_http_def BASE_def)
  have proper: "choose_fname (ex_file n) ''com.example.app'' \<notin> {[], ''.'', ''..''}" for n
    by (simp add: ex_choose_fname)
  have pair: "?d n = (fst (?d n), snd (?d n))" for n
    by simp
  have requests:
    "log (snd (?d n))
       = log ex_world @ [Get (BASE @ ''/app/com.example.app'' @ ''/download/apk''), Get ?u]" for n
    by (simp add: ex_download_apk)
  from size_floor [OF pair requests got proper, of 102400] small
  have "fst (?d 102400) = Inr None"
    by simp
  moreover from size_floor [OF pair requests got proper, of 12582912] big
  have "fst (?d 12582912) = Inr (Some (''com.example.app'', ''app.apk''))"
    by (simp add: ex_choose_fname)
  ultimately show ?thesis
    by simp
qed

section \<open>Orchestrator: when the ledger is written\<close>

text \<open>
  Claim C1.  Among the events \<open>evs\<close> of one run of \<open>process_app\<close>, a version is saved
  if and only if it is saved for this app's package, it is the non-empty version the
  version check returned, and the decompilation succeeded (the run printed the
  \<open>Output\<close> line with a non-zero count of Java files, which is the value \<open>decompile_apk\<close>
  returns).  If a version is saved the ledger entry of the package holds it afterwards;
  in every other run, in particular when the decompilation fails or no version was
  determined, the ledger is unchanged.
\<close>

theorem ledger_written_iff:
  assumes run: "process_app e w a force threads = (res, w')"
  shows "\<exists>evs. log w' = log w @ evs
     \<and> (\<forall>p v. Saved p v \<in> set evs \<longleftrightarrow>
           p = package a \<and> fst (check_version e w (app_path a)) = Some v \<and> v \<noteq> []
           \<and> (\<exists>j x. Output j x \<in> set evs \<and> j \<noteq> 0))
     \<and> versions w' =
         (if \<exists>p v. Saved p v \<in> set evs
          then (versions w)(package a @ ''.version'' \<mapsto>
                 the (fst (check_version e w (app_path a))))
          else versions w)"
proof -
  let ?c = "fst (check_version e w (app_path a))"
  let ?P = "\<lambda>evs. log w' = log w @ evs
     \<and> (\<forall>p v. Saved p v \<in> set evs \<longleftrightarrow>
           p = package a \<and> ?c = Some v \<and> v \<noteq> [] \<and> (\<exists>j x. Output j x \<in> set evs \<and> j \<noteq> 0))
     \<and> versions w' =
         (if \<exists>p v. Saved p v \<in> set evs
          then (versions w)(package a @ ''.version'' \<mapsto> the ?c)
          else versions w)"
  have quiet: "?P evs"
    if "log w' = log w @ evs" "\<And>p v. Saved p v \<notin> set evs" "\<And>j x. Output j x \<notin> set evs"
      "versions w' = versions w" for evs
    using that by simp
  have "\<exists>evs. ?P evs"
    using run
proof (cases rule: process_app_cases)
  case skip
  have p: "?P [Get (BASE @ app_path a)]"
    by (rule quiet) (simp_all add: skip(5))
  show ?thesis
    by (rule exI [of _ "[Get (BASE @ app_path a)]"]) (rule p)
next
  case (fetch_exn x)
  from fetch_log [OF fetch_exn(1)] obtain gets where
    gets: "log w' = log w @ Get (BASE @ app_path a) # Get (BASE @ app_path a @ ''/download/apk'') # gets"
      "\<forall>ev \<in> set gets. \<exists>u. ev = Get u"
    by blast
  have v: "versions w' = versions w"
    using download_apk_world [OF fetch_exn(1)] by simp
  let ?evs = "Get (BASE @ app_path a) # Get (BASE @ app_path a @ ''/download/apk'') # gets"
  have p: "?P ?evs"
  proof (rule quiet)
    show "log w' = log w @ Get (BASE @ app_path a)
            # Get (BASE @ app_path a @ ''/download/apk'') # gets"
      by (rule gets(1))
    show "Saved p v \<notin> set (Get (BASE @ app_path a)
            # Get (BASE @ app_path a @ ''/download/apk'') # gets)" for p v
      using gets(2) by auto
    show "Output j y \<notin> set (Get (BASE @ app_path a)
            # Get (BASE @ app_path a @ ''/download/apk'') # gets)" for j y
      using gets(2) by auto
    show "versions w' = versions w"
      by (rule v)
  qed
  show ?thesis
    by (rule exI [of _ ?evs]) (rule p)
next
  case fetch_fail
  from fetch_log [OF fetch_fail(1)] obtain gets where
    gets: "log w' = log w @ Get (BASE @ app_path a) # Get (BASE @ app_path a @ ''/download/apk'') # gets"
      "\<forall>ev \<in> set gets. \<exists>u. ev = Get u"
    by blast
  have v: "versions w' = versions w"
    using download_apk_world [OF fetch_fail(1)] by simp
  let ?evs = "Get (BASE @ app_path a) # Get (BASE @ app_path a @ ''/download/apk'') # gets"
  have p: "?P ?evs"
  proof (rule quiet)
    show "log w' = log w @ Get (BASE @ app_path a)
            # Get (BASE @ app_path a @ ''/download/apk'') # gets"
      by (rule gets(1))
    show "Saved p v \<notin> set (Get (BASE @ app_path a)
            # Get (BASE @ app_path a @ ''/download/apk'') # gets)" for p v
      using gets(2) by auto
    show "Output j y \<notin> set (Get (BASE @ app_path a)
            # Get (BASE @ app_path a @ ''/download/apk'') # gets)" for j y
      using gets(2) by auto
    show "versions w' = versions w"
      by (rule v)
  qed
  show ?thesis
    by (rule exI [of _ ?evs]) (rule p)
next
  case (dec_exn apk w2 x)
  from fetch_log [OF dec_exn(1)] obtain gets where
    gets: "log w2 = log w @ Get (BASE @ app_path a) # Get (BASE @ app_path a @ ''/download/apk'') # gets"
      "\<forall>ev \<in> set gets. \<exists>u. ev = Get u"
    by blast
  from decompile_apk_world [OF dec_exn(2)] obtain tc polls where
    mon: "log w' = log w2 @ monitor_decompile_progress tc 0 polls"
    and v: "versions w' = versions w2"
    by auto
  have v2: "versions w2 = versions w"
    using download_apk_world [OF dec_exn(1)] by simp
  let ?evs = "Get (BASE @ app_path a) # Get (BASE @ app_path a @ ''/download/apk'') # gets
               @ monitor_decompile_progress tc 0 polls"
  have p: "?P ?evs"
  proof (rule quiet)
    show "log w' = log w @ ?evs"
      by (simp add: mon gets)
    show "Saved p v \<notin> set ?evs" for p v
      using gets(2) monitor_events [of _ tc 0 polls] by auto
    show "Output j y \<notin> set ?evs" for j y
      using gets(2) monitor_events [of _ tc 0 polls] by auto
    show "versions w' = versions w"
      by (simp add: v v2)
  qed
  show ?thesis
    by (rule exI [of _ ?evs]) (rule p)
next
  case (dec apk w2 success w3)
  from fetch_log [OF dec(1)] obtain gets where
    gets: "log w2 = log w @ Get (BASE @ app_path a) # Get (BASE @ app_path a @ ''/download/apk'') # gets"
      "\<forall>ev \<in> set gets. \<exists>u. ev = Get u"
    by blast
  from decompile_apk_world [OF dec(2)] obtain tc polls j x where
    mon: "log w3 = log w2 @ monitor_decompile_progress tc 0 polls @ [Progress100, Output j x]"
    and s: "success = (j \<noteq> 0)"
    and v: "versions w3 = versions w2"
    by auto
  have v2: "versions w2 = versions w"
    using download_apk_world [OF dec(1)] by simp
  let ?base = "Get (BASE @ app_path a) # Get (BASE @ app_path a @ ''/download/apk'') # gets
               @ monitor_decompile_progress tc 0 polls @ [Progress100, Output j x]"
  have l3: "log w3 = log w @ ?base"
    by (simp add: mon gets)
  have nosaved: "Saved p v \<notin> set ?base" for p v
    using gets(2) monitor_events [of _ tc 0 polls] by auto
  have out: "Output j' x' \<in> set ?base \<longleftrightarrow> j' = j \<and> x' = x" for j' x'
    using gets(2) monitor_events [of _ tc 0 polls] by auto
  show ?thesis
  proof (cases "success \<and> truthy ?c")
    case True
    then obtain v where c: "?c = Some v" "v \<noteq> []"
      using truthy_Some by blast
    from dec(4) [OF True] have w': "w' = (save_version w3 (package a) v)
                                          \<lparr>apks := (apks w3)(package a := None)\<rparr>"
      by (simp add: c)
    let ?evs = "?base @ [Saved (package a) v]"
    have "log w' = log w @ ?evs"
      by (simp add: w' save_version_def l3)
    moreover have "Saved p u \<in> set ?evs \<longleftrightarrow> p = package a \<and> u = v" for p u
      using nosaved [of p u] by auto
    moreover have "(\<exists>j' x'. Output j' x' \<in> set ?evs \<and> j' \<noteq> 0)"
      using True s out by auto
    moreover have "versions w' = (versions w)(package a @ ''.version'' \<mapsto> v)"
      by (simp add: w' save_version_def v v2)
    ultimately have p: "?P ?evs"
      using c by auto
    show ?thesis
      by (rule exI [of _ ?evs]) (rule p)
  next
    case False
    from dec(5) [OF False] have w': "w' = w3\<lparr>apks := (apks w3)(package a := None)\<rparr>" .
    have "log w' = log w @ ?base"
      by (simp add: w' l3)
    moreover have "versions w' = versions w"
      by (simp add: w' v v2)
    moreover have "\<not> (?c = Some u \<and> u \<noteq> [] \<and> (\<exists>j' x'. Output j' x' \<in> set ?base \<and> j' \<noteq> 0))" for u
      using False s out by (auto simp: truthy_def)
    ultimately have p: "?P ?base"
      using nosaved by auto
    show ?thesis
      by (rule exI [of _ ?base]) (rule p)
  qed
qed
  then show ?thesis .
qed

text \<open>The scenario: a successful run stores 2.0; a run whose decompilation produces no
  Java file leaves the ledger as it was.\<close>

theorem ledger_written_iff_witness:
  "versions (snd (process_app (ex_env 12582912 ex_run) ex_world ex_app False 4))
     ''com.example.app.version'' = Some ''2.0''
   \<and> versions (snd (process_app (ex_env 12582912 (Completed [] [])) ex_world ex_app False 4))
     = versions ex_world"
proof -
  let ?ok = "process_app (ex_env 12582912 ex_run) ex_world ex_app False 4"
  let ?ko = "process_app (ex_env 12582912 (Completed [] [])) ex_world ex_app False 4"
  have cv: "fst (check_version (ex_env n run) ex_world (app_path ex_app)) = Some ''2.0''"
    for n run
    by (simp add: ex_app_def ex_check_version)
  have pk: "package ex_app = ''com.example.app''"
    by (simp add: ex_app_def)
  have l0: "log ex_world = []"
    by (simp add: ex_world_def)
  have ok: "?ok = (fst ?ok, snd ?ok)" and ko: "?ko = (fst ?ko, snd ?ko)"
    by simp_all
  have log_ok: "log (snd ?ok) = [Get (BASE @ ''/app/com.example.app''),
      Get (BASE @ ''/app/com.example.app/download/apk''), Get (BASE @ ''/r2?u=a''),
      Progress (1400 / 29) 700 1450, Progress (2800 / 29) 1400 1450,
      Progress100, Output 1400 1, Saved ''com.example.app'' ''2.0'']"
  proof -
    have "?ok = (Inr True,
      ex_world\<lparr>versions := (versions ex_world)(''com.example.app.version'' \<mapsto> ''2.0''),
        apks := (apks ex_world)(''com.example.app'' := None),
        sources := (sources ex_world)(''com.example.app'' \<mapsto>
                      replicate 1400 ''a/A.java'' @ [''res/values/strings.xml'']),
        log := log ex_world @ [Get (BASE @ ''/app/com.example.app''),
                        Get (BASE @ ''/app/com.example.app/download/apk''),
                        Get (BASE @ ''/r2?u=a''),
                        Progress (1400 / 29) 700 1450, Progress (2800 / 29) 1400 1450,
                        Progress100, Output 1400 1,
                        Saved ''com.example.app'' ''2.0'']\<rparr>)"
      by (rule ex_process_app) (simp add: ex_no_stored_version)
    then show ?thesis
      by (simp add: ex_world_def)
  qed
  have log_ko: "log (snd ?ko) = [Get (BASE @ ''/app/com.example.app''),
      Get (BASE @ ''/app/com.example.app/download/apk''), Get (BASE @ ''/r2?u=a''),
      Progress100, Output 0 0]"
    by (subst ex_process_app_failed) simp
  from ledger_written_iff [OF ok] obtain evs where
    evs: "log (snd ?ok) = log ex_world @ evs"
    and saved: "\<forall>p v. Saved p v \<in> set evs \<longleftrightarrow>
           p = package ex_app
           \<and> fst (check_version (ex_env 12582912 ex_run) ex_world (app_path ex_app)) = Some v
           \<and> v \<noteq> [] \<and> (\<exists>j x. Output j x \<in> set evs \<and> j \<noteq> 0)"
    and ledger: "versions (snd ?ok) =
         (if \<exists>p v. Saved p v \<in> set evs
          then (versions ex_world)(package ex_app @ ''.version'' \<mapsto>
                 the (fst (check_version (ex_env 12582912 ex_run) ex_world (app_path ex_app))))
          else versions ex_world)"
    by blast
  have "Output 1400 1 \<in> set evs"
    using evs unfolding log_ok l0 by auto
  then have "Saved ''com.example.app'' ''2.0'' \<in> set evs"
    using saved cv pk by auto
  then have one: "versions (snd ?ok) ''com.example.app.version'' = Some ''2.0''"
    using ledger by (auto simp: cv pk)
  from ledger_written_iff [OF ko] obtain evs' where
    evs': "log (snd ?ko) = log ex_world @ evs'"
    and saved': "\<forall>p v. Saved p v \<in> set evs' \<longleftrightarrow>
           p = package ex_app
           \<and> fst (check_version (ex_env 12582912 (Completed [] [])) ex_world (app_path ex_app))
               = Some v
           \<and> v \<noteq> [] \<and> (\<exists>j x. Output j x \<in> set evs' \<and> j \<noteq> 0)"
    and ledger': "versions (snd ?ko) =
         (if \<exists>p v. Saved p v \<in> set evs'
          then (versions ex_world)(package ex_app @ ''.version'' \<mapsto>
                 the (fst (check_version (ex_env 12582912 (Completed [] [])) ex_world
                        (app_path ex_app))))
          else versions ex_world)"
    by blast
  have "evs' = [Get (BASE @ ''/app/com.example.app''),
      Get (BASE @ ''/app/com.example.app/download/apk''), Get (BASE @ ''/r2?u=a''),
      Progress100, Output 0 0]"
    using evs' unfolding log_ko l0 by auto
  then have "\<not> (\<exists>p v. Saved p v \<in> set evs')"
    by simp
  then have two: "versions (snd ?ko) = versions ex_world"
    using ledger' by simp
  from one two show ?thesis
    by simp
qed

section \<open>Orchestrator: cleaning up the scratch directory\<close>

text \<open>
  Claim C3, as stated, fails on the paths where the fetch itself fails.  In the scenario
  with a payload of 100 KB the download page is requested, the undersized file is
  deleted, \<open>process_app\<close> returns \<open>False\<close>, and the scratch directory of the package
  still exists afterwards.
\<close>

theorem scratch_left_behind:
  "fst (process_app (ex_env 102400 ex_run) ex_world ex_app False 4) = Inr False
   \<and> Get (BASE @ ''/app/com.example.app/download/apk'')
        \<in> set (log (snd (process_app (ex_env 102400 ex_run) ex_world ex_app False 4)))
   \<and> apks (snd (process_app (ex_env 102400 ex_run) ex_world ex_app False 4))
        ''com.example.app'' \<noteq> None"
  by (simp add: ex_process_app_undersized)

text \<open>
  Claim C3, amended.  For every item on which a fetch occurred: if the decompiler was
  run and returned, successfully or not (the run printed its \<open>Output\<close> line), the scratch
  directory of the package is deleted before \<open>process_app\<close> returns; if the item failed
  without a decompiler run, that is the fetch failed, the scratch directory is left in
  place and is empty.
\<close>

theorem scratch_cleanup:
  assumes run: "process_app e w a force threads = (res, w')"
    and evs: "log w' = log w @ evs"
    and fetch: "Get (BASE @ app_path a @ ''/download/apk'') \<in> set evs"
  shows "((\<exists>j x. Output j x \<in> set evs) \<longrightarrow> apks w' (package a) = None)
       \<and> (res = Inr False \<and> (\<forall>j x. Output j x \<notin> set evs) \<longrightarrow>
            apks w' (package a) = Some Map.empty)"
  using run
proof (cases rule: process_app_cases)
  case skip
  with evs fetch show ?thesis by auto
next
  case (fetch_exn x)
  from fetch_log [OF fetch_exn(1)] obtain gets where
    "log w' = log w @ Get (BASE @ app_path a) # Get (BASE @ app_path a @ ''/download/apk'') # gets"
    "\<forall>ev \<in> set gets. \<exists>u. ev = Get u"
    by blast
  with evs have "\<forall>ev \<in> set evs. \<exists>u. ev = Get u"
    by auto
  with fetch_exn(2) show ?thesis by auto
next
  case fetch_fail
  from fetch_log [OF fetch_fail(1)] obtain gets where
    "log w' = log w @ Get (BASE @ app_path a) # Get (BASE @ app_path a @ ''/download/apk'') # gets"
    "\<forall>ev \<in> set gets. \<exists>u. ev = Get u"
    by blast
  with evs have "\<forall>ev \<in> set evs. \<exists>u. ev = Get u"
    by auto
  moreover have "apks w' (package a) = Some Map.empty"
    using download_apk_world [OF fetch_fail(1)] by simp
  ultimately show ?thesis by auto
next
  case (dec_exn apk w2 x)
  from fetch_log [OF dec_exn(1)] obtain gets where
    gets: "log w2 = log w @ Get (BASE @ app_path a) # Get (BASE @ app_path a @ ''/download/apk'') # gets"
      "\<forall>ev \<in> set gets. \<exists>u. ev = Get u"
    by blast
  from decompile_apk_world [OF dec_exn(2)] obtain tc polls where
    mon: "log w' = log w2 @ monitor_decompile_progress tc 0 polls"
    by auto
  have "evs = Get (BASE @ app_path a) # Get (BASE @ app_path a @ ''/download/apk'') # gets
               @ monitor_decompile_progress tc 0 polls"
    using evs by (simp add: mon gets)
  then have "Output j y \<notin> set evs" for j y
    using gets(2) monitor_events [of _ tc 0 polls] by auto
  with dec_exn(3) show ?thesis by simp
next
  case (dec apk w2 success w3)
  have clean: "apks w' (package a) = None"
    using dec(4,5) by (cases "success \<and> truthy (fst (check_version e w (app_path a)))")
      (simp_all add: save_version_def)
  from fetch_log [OF dec(1)] obtain gets where
    gets: "log w2 = log w @ Get (BASE @ app_path a) # Get (BASE @ app_path a @ ''/download/apk'') # gets"
    by blast
  from decompile_apk_world [OF dec(2)] obtain tc polls j x where
    mon: "log w3 = log w2 @ monitor_decompile_progress tc 0 polls @ [Progress100, Output j x]"
    by auto
  have "\<exists>more. log w' = log w3 @ more"
    using dec(4,5) by (cases "success \<and> truthy (fst (check_version e w (app_path a)))")
      (simp_all add: save_version_def)
  then obtain more where "log w' = log w3 @ more"
    by blast
  then have "evs = Get (BASE @ app_path a) # Get (BASE @ app_path a @ ''/download/apk'') # gets
               @ monitor_decompile_progress tc 0 polls @ [Progress100, Output j x] @ more"
    using evs by (simp add: mon gets)
  then have "Output j x \<in> set evs"
    by simp
  with clean show ?thesis
    by blast
qed

text \<open>The scenario with a successful decompilation, with a failed one, and with an
  undersized payload.\<close>

theorem scratch_cleanup_witness:
  "apks (snd (process_app (ex_env 12582912 ex_run) ex_world ex_app False 4))
     ''com.example.app'' = None
   \<and> apks (snd (process_app (ex_env 12582912 (Completed [] [])) ex_world ex_app False 4))
     ''com.example.app'' = None
   \<and> apks (snd (process_app (ex_env 102400 ex_run) ex_world ex_app False 4))
     ''com.example.app'' = Some Map.empty"
proof -
  let ?ok = "process_app (ex_env 12582912 ex_run) ex_world ex_app False 4"
  let ?ko = "process_app (ex_env 12582912 (Completed [] [])) ex_world ex_app False 4"
  let ?un = "process_app (ex_env 102400 ex_run) ex_world ex_app False 4"
  let ?gets = "[Get (BASE @ ''/app/com.example.app''),
      Get (BASE @ ''/app/com.example.app/download/apk''), Get (BASE @ ''/r2?u=a'')]"
  have l0: "log ex_world = []"
    by (simp add: ex_world_def)
  have ap: "app_path ex_app = ''/app/com.example.app''" and pk: "package ex_app = ''com.example.app''"
    by (simp_all add: ex_app_def)
  have ok: "?ok = (Inr True, snd ?ok)"
    and log_ok: "log (snd ?ok) = log ex_world @ ?gets @ [Progress (1400 / 29) 700 1450,
      Progress (2800 / 29) 1400 1450, Progress100, Output 1400 1,
      Saved ''com.example.app'' ''2.0'']"
    by (simp_all add: ex_process_app ex_no_stored_version)
  have ko: "?ko = (Inr False, snd ?ko)"
    and log_ko: "log (snd ?ko) = log ex_world @ ?gets @ [Progress100, Output 0 0]"
    by (simp_all add: ex_process_app_failed l0)
  have un: "?un = (Inr False, snd ?un)"
    and log_un: "log (snd ?un) = log ex_world @ ?gets"
    by (simp_all add: ex_process_app_undersized l0)
  have "apks (snd ?ok) (package ex_app) = None"
    using scratch_cleanup [OF ok log_ok] by (simp add: ap)
  moreover have "apks (snd ?ko) (package ex_app) = None"
    using scratch_cleanup [OF ko log_ko] by (simp add: ap)
  moreover have "apks (snd ?un) (package ex_app) = Some Map.empty"
    using scratch_cleanup [OF un log_un] by (simp add: ap)
  ultimately show ?thesis
    by (simp add: pk)
qed

section \<open>Orchestrator: the version gate\<close>




section \<open>Artifact fetcher: the priority of the link shapes\<close>

text \<open>
  Claim C6.  On a download page that was received: if a storage-redirect link is present,
  the file is requested at the first such link (a link starting with \<^verbatim>\<open>/r2?u=\<close>, resolved
  against the base), whether or not a CDN-redirect link is present too; if none is
  present but a CDN-redirect link is, the file is requested at the first such link; if
  neither is present no further request is sent and the fetch returns \<open>None\<close>.
\<close>

theorem link_priority:
  assumes page: "http e (BASE @ path @ ''/download/apk'') = Some r"
    and run: "download_apk e w path pkg = (res, w')"
  shows "(has_storage_link (resp_text r) \<longrightarrow>
            startswith (hd (findall1 pat_r2 (resp_text r))) ''/r2?u=''
            \<and> log w' = log w @ [Get (BASE @ path @ ''/download/apk''),
                                 Get (BASE @ unescape e (hd (findall1 pat_r2 (resp_text r))))])
       \<and> (\<not> has_storage_link (resp_text r) \<and> has_cdn_link (resp_text r) \<longrightarrow>
            startswith (hd (findall1 pat_d (resp_text r))) ''https://apkcombo.com/d?u=''
            \<and> log w' = log w @ [Get (BASE @ path @ ''/download/apk''),
                                 Get (unescape e (hd (findall1 pat_d (resp_text r))))])
       \<and> (\<not> has_storage_link (resp_text r) \<and> \<not> has_cdn_link (resp_text r) \<longrightarrow>
            res = Inr None \<and> log w' = log w @ [Get (BASE @ path @ ''/download/apk'')])"
proof -
  let ?w0 = "w\<lparr>apks := (apks w)(pkg \<mapsto> Map.empty),
               log := log w @ [Get (BASE @ path @ ''/download/apk'')]\<rparr>"
  have eq: "(res, w') = download_apk e w path pkg"
    using run by simp
  have one: "startswith (hd (findall1 pat_r2 (resp_text r))) ''/r2?u=''
            \<and> log w' = log w @ [Get (BASE @ path @ ''/download/apk''),
                                 Get (BASE @ unescape e (hd (findall1 pat_r2 (resp_text r))))]"
    if "has_storage_link (resp_text r)"
  proof -
    from that have ne: "findall1 pat_r2 (resp_text r) \<noteq> []"
      by (simp add: storage_link_iff)
    then have "download_file e ?w0 pkg (BASE @ unescape e (hd (findall1 pat_r2 (resp_text r))))
                 = (res, w')"
      using eq page by (simp add: download_apk_cases)
    from download_file_world [OF this] have "log w' = log ?w0
        @ [Get (BASE @ unescape e (hd (findall1 pat_r2 (resp_text r))))]"
      by simp
    moreover have "startswith (hd (findall1 pat_r2 (resp_text r))) ''/r2?u=''"
      using ne unfolding pat_r2_def by (rule hd_findall1_prefix)
    ultimately show ?thesis
      by simp
  qed
  have two: "startswith (hd (findall1 pat_d (resp_text r))) ''https://apkcombo.com/d?u=''
            \<and> log w' = log w @ [Get (BASE @ path @ ''/download/apk''),
                                 Get (unescape e (hd (findall1 pat_d (resp_text r))))]"
    if "\<not> has_storage_link (resp_text r) \<and> has_cdn_link (resp_text r)"
  proof -
    from that have no: "findall1 pat_r2 (resp_text r) = []"
      and ne: "findall1 pat_d (resp_text r) \<noteq> []"
      by (simp_all add: storage_link_iff cdn_link_iff)
    then have "download_file e ?w0 pkg (unescape e (hd (findall1 pat_d (resp_text r))))
                 = (res, w')"
      using eq page by (simp add: download_apk_cases)
    from download_file_world [OF this] have "log w' = log ?w0
        @ [Get (unescape e (hd (findall1 pat_d (resp_text r))))]"
      by simp
    moreover have "startswith (hd (findall1 pat_d (resp_text r))) ''https://apkcombo.com/d?u=''"
      using ne unfolding pat_d_def by (rule hd_findall1_prefix)
    ultimately show ?thesis
      by simp
  qed
  have three: "res = Inr None \<and> log w' = log w @ [Get (BASE @ path @ ''/download/apk'')]"
    if "\<not> has_storage_link (resp_text r) \<and> \<not> has_cdn_link (resp_text r)"
  proof -
    from that have "findall1 pat_r2 (resp_text r) = []" "findall1 pat_d (resp_text r) = []"
      by (simp_all add: storage_link_iff cdn_link_iff)
    then show ?thesis
      using eq page by (simp add: download_apk_cases)
  qed
  from one two three show ?thesis
    by blast
qed

text \<open>A page with both shapes, a page with the CDN link only, and an empty page.\<close>

theorem link_priority_witness:
  "log (snd (download_apk (ex_env_page ex_download_page) ex_world ''/app/com.example.app''
               ''com.example.app''))
     = [Get (BASE @ ''/app/com.example.app/download/apk''), Get (BASE @ ''/r2?u=a'')]
   \<and> log (snd (download_apk (ex_env_page ex_cdn_page) ex_world ''/app/com.example.app''
               ''com.example.app''))
     = [Get (BASE @ ''/app/com.example.app/download/apk''), Get ''https://apkcombo.com/d?u=b'']
   \<and> fst (download_apk (ex_env_page []) ex_world ''/app/com.example.app'' ''com.example.app'')
     = Inr None"
proof -
  let ?d = "\<lambda>t. download_apk (ex_env_page t) ex_world ''/app/com.example.app'' ''com.example.app''"
  have page: "http (ex_env_page t) (BASE @ ''/app/com.example.app'' @ ''/download/apk'')
                = Some (ex_page t)" for t
    by (simp add: ex_env_page_def)
  have run: "?d t = (fst (?d t), snd (?d t))" for t
    by simp
  have body: "resp_text (ex_page t) = t" for t
    by (simp add: ex_page_def)
  have un: "unescape (ex_env_page t) = (\<lambda>s. s)" for t
    by (simp add: ex_env_page_def)
  have l0: "log ex_world = []"
    by (simp add: ex_world_def)
  note gate = link_priority [OF page run, unfolded body un l0]
  have both: "has_storage_link ex_download_page"
    by (simp add: storage_link_iff ex_findall_r2)
  have cdn: "\<not> has_storage_link ex_cdn_page \<and> has_cdn_link ex_cdn_page"
    by (simp add: storage_link_iff cdn_link_iff ex_cdn_page_links)
  have neither: "\<not> has_storage_link [] \<and> \<not> has_cdn_link []"
    by (simp add: storage_link_iff cdn_link_iff ex_empty_page_links)
  from gate [of ex_download_page] both
  have "log (snd (?d ex_download_page))
          = [Get (BASE @ ''/app/com.example.app/download/apk''), Get (BASE @ ''/r2?u=a'')]"
    by (simp add: ex_findall_r2)
  moreover from gate [of ex_cdn_page] cdn
  have "log (snd (?d ex_cdn_page))
          = [Get (BASE @ ''/app/com.example.app/download/apk''),
             Get ''https://apkcombo.com/d?u=b'']"
    by (simp add: ex_cdn_page_links)
  moreover from gate [of "[]"] neither
  have "fst (?d []) = Inr None"
    by simp
  ultimately show ?thesis
    by simp
qed

section \<open>Decompilation supervisor: the expected class count\<close>



section \<open>Progress monitor\<close>

text \<open>
  Claim C9, as stated, fails: the monitor prints the percentage of whatever count the
  current poll returned, so two polls that see 5 and then 3 files of 10 expected classes
  print 50% and then 30%.
\<close>

theorem progress_not_monotone:
  "\<not> sorted (percentages (monitor_decompile_progress 10 0 [Counted 5, Counted 3]))"
  by (simp add: pct_def)

text \<open>
  Claim C9, amended.  For a single decompile invocation: if the counts returned by
  successive polls do not decrease, the reported percentages do not decrease; every
  printed line is \<open>min (count / expected * 100) 99.9\<close> of a polled count when the expected
  class count is positive and the raw count otherwise; every percentage is below 100;
  and the 100% line is not printed when the subprocess times out, and is printed after
  all lines of the monitor when the subprocess has completed.
\<close>

theorem progress_reports:
  "(sorted (poll_counts polls) \<longrightarrow>
      sorted (percentages (monitor_decompile_progress tc lc polls)))
   \<and> (\<forall>ev \<in> set (monitor_decompile_progress tc lc polls).
        if 0 < tc
        then \<exists>c \<in> set (poll_counts polls).
               ev = Progress (min (of_nat c / of_int tc * 100) (999 / 10)) c tc
        else \<exists>c \<in> set (poll_counts polls). ev = Decompiled c)
   \<and> (\<forall>q \<in> set (percentages (monitor_decompile_progress tc lc polls)). q < 100)
   \<and> (decompile_apk e w apk pkg threads = (res, w') \<and> log w' = log w @ evs \<longrightarrow>
        (\<forall>ps files. jadx e threads pkg apk = TimedOut ps files \<longrightarrow> Progress100 \<notin> set evs)
        \<and> (\<forall>ps files. jadx e threads pkg apk = Completed ps files \<longrightarrow>
              (\<exists>n j x. evs = monitor_decompile_progress n 0 ps @ [Progress100, Output j x])))"
proof (intro conjI impI ballI)
  assume "sorted (poll_counts polls)"
  then show "sorted (percentages (monitor_decompile_progress tc lc polls))"
    by (rule monitor_sorted)
next
  fix ev
  assume "ev \<in> set (monitor_decompile_progress tc lc polls)"
  from monitor_reports [OF this, unfolded pct_def]
  show "if 0 < tc
        then \<exists>c \<in> set (poll_counts polls).
               ev = Progress (min (of_nat c / of_int tc * 100) (999 / 10)) c tc
        else \<exists>c \<in> set (poll_counts polls). ev = Decompiled c" .
next
  fix q
  assume "q \<in> set (percentages (monitor_decompile_progress tc lc polls))"
  from monitor_percentages [OF this] show "q < 100"
    using pct_below_100 by auto
next
  assume run: "decompile_apk e w apk pkg threads = (res, w') \<and> log w' = log w @ evs"
  obtain n where n: "count_dex_classes e (w\<lparr>sources := (sources w)(pkg \<mapsto> [])\<rparr>) apk = Inr n"
    using count_dex_classes_returns by blast
  show "\<forall>ps files. jadx e threads pkg apk = TimedOut ps files \<longrightarrow> Progress100 \<notin> set evs"
  proof (intro allI impI)
    fix ps files
    assume "jadx e threads pkg apk = TimedOut ps files"
    with run n have "evs = monitor_decompile_progress n 0 ps"
      by (auto simp: decompile_apk_def Let_def)
    then show "Progress100 \<notin> set evs"
      using monitor_events [of Progress100 n 0 ps] by auto
  qed
  show "\<forall>ps files. jadx e threads pkg apk = Completed ps files \<longrightarrow>
          (\<exists>n j x. evs = monitor_decompile_progress n 0 ps @ [Progress100, Output j x])"
  proof (intro allI impI)
    fix ps files
    assume "jadx e threads pkg apk = Completed ps files"
    with run n have "evs = monitor_decompile_progress n 0 ps
        @ [Progress100, Output (length (filter (\<lambda>f. endswith f ''.java'') files))
                           (length (filter (\<lambda>f. endswith f ''.xml'') files))]"
      by (auto simp: decompile_apk_def Let_def)
    then show "\<exists>n j x. evs = monitor_decompile_progress n 0 ps @ [Progress100, Output j x]"
      by blast
  qed
qed

text \<open>The polls of the scenario, with one failed poll and one repeated count; and the cap
  at 99.9 when more files exist than classes were expected.\<close>

theorem progress_reports_witness:
  "sorted (percentages (monitor_decompile_progress 1450 0
             [Counted 700, PollError, Counted 1400, Counted 1400]))
   \<and> percentages (monitor_decompile_progress 1 0 [Counted 5]) = [999 / 10]"
proof -
  have "sorted (poll_counts [Counted 700, PollError, Counted 1400, Counted 1400])"
    by simp
  with progress_reports [of "[Counted 700, PollError, Counted 1400, Counted 1400]" 1450 0]
  have "sorted (percentages (monitor_decompile_progress 1450 0
             [Counted 700, PollError, Counted 1400, Counted 1400]))"
    by blast
  moreover have "percentages (monitor_decompile_progress 1 0 [Counted 5]) = [999 / 10]"
    by (simp add: pct_def)
  ultimately show ?thesis
    by simp
qed

section \<open>Run loop: a decompiler timeout\<close>

text \<open>
  Claim C2 does not hold of the code.  \<open>subprocess.run\<close> raises \<open>TimeoutExpired\<close> when the
  1800 seconds pass, and neither \<open>decompile_apk\<close> nor \<open>process_app\<close> nor the loop of \<open>main\<close>
  catches it.  In a run over two apps where the decompiler times out on the first, the
  loop ends with the exception: no outcome is recorded, the second app is never
  requested, and the artifact of the first stays in its scratch directory.  When the
  decompiler instead returns without output, the failure is recorded as \<open>False\<close> and the
  second app is processed.
\<close>

theorem timeout_aborts_run:
  "fst (main_loop (ex_env 12582912 ex_timeout) ex_world False 4 [ex_app, ex_other_app] [])
     = Inl TimeoutExpired
   \<and> Get (BASE @ ''/app/com.example.other'')
        \<notin> set (log (snd (main_loop (ex_env 12582912 ex_timeout) ex_world False 4
                           [ex_app, ex_other_app] [])))
   \<and> apks (snd (main_loop (ex_env 12582912 ex_timeout) ex_world False 4
                  [ex_app, ex_other_app] [])) ''com.example.app'' \<noteq> None
   \<and> fst (main_loop (ex_env 12582912 (Completed [] [])) ex_world False 4
            [ex_app, ex_other_app] [])
     = Inr [(''com.example.app'', False), (''com.example.other'', False)]"
proof -
  have timeout:
    "main_loop (ex_env 12582912 ex_timeout) ex_world False 4 [ex_app, ex_other_app] []
       = (Inl TimeoutExpired,
          ex_world\<lparr>apks := [''com.example.app'' \<mapsto>
                               [''app.apk'' \<mapsto> replicate 12582912 CHR ''x'']],
            sources := [''com.example.app'' \<mapsto> replicate 700 ''a/A.java''],
            log := [Get (BASE @ ''/app/com.example.app''),
                    Get (BASE @ ''/app/com.example.app/download/apk''),
                    Get (BASE @ ''/r2?u=a''), Progress (1400 / 29) 700 1450]\<rparr>)"
    by (simp add: ex_process_app_timeout)
  have pk: "package ex_app = ''com.example.app''" "package ex_other_app = ''com.example.other''"
    by (simp_all add: ex_app_def ex_other_app_def)
  have failed:
    "fst (main_loop (ex_env 12582912 (Completed [] [])) ex_world False 4
            [ex_app, ex_other_app] [])
       = Inr [(''com.example.app'', False), (''com.example.other'', False)]"
    by (simp add: ex_process_app_failed ex_process_other pk)
  show ?thesis
    unfolding timeout failed by (simp add: BASE_def)
qed

section \<open>Version oracle\<close>

text \<open>
  Claim C8, as stated, fails in one case: when the structured field is absent and the
  version-labeled element holds only whitespace, the fallback match is stripped to the
  empty string and \<open>check_version\<close> returns that empty string, which is neither a
  non-empty match nor none.
\<close>

theorem empty_version_returned:
  "fst (check_version (ex_env_detail ex_blank_version_page) ex_world ''/app/com.example.app'')
     = Some []
   \<and> spec_check_version
        (http (ex_env_detail ex_blank_version_page) (BASE @ ''/app/com.example.app'')) = None"
proof -
  have a: "structured_version ex_blank_version_page = None"
    by (simp add: structured_version_def ms.simps pat_software_version_def
          ex_blank_version_page_def match_at_def dq_def is_space_def not_chr_def)
  have b: "labeled_version ex_blank_version_page = Some []"
    by (simp add: labeled_version_def ms.simps pat_version_class_def
          ex_blank_version_page_def match_at_def dq_def is_space_def not_chr_def group_def
          strip_def)
  have page: "http (ex_env_detail ex_blank_version_page) (BASE @ ''/app/com.example.app'')
      = Some (ex_page ex_blank_version_page)"
    by (simp add: ex_env_detail_def)
  have body: "resp_text (ex_page ex_blank_version_page) = ex_blank_version_page"
    by (simp add: ex_page_def)
  show ?thesis
    by (simp add: check_version_strategies spec_check_version_def page body a b truthy_def)
qed

text \<open>
  Claim C8, amended.  The strategies are applied in order, the structured field first and
  the version-labeled element second, and \<open>check_version\<close> returns the first match; none
  if the request fails or neither strategy matches.  A structured match is never empty.
  Read by its truth value, as \<open>process_app\<close> reads it, the result is the first non-empty
  match of the specification: the only difference is the empty string returned where the
  specification says none.
\<close>

theorem check_version_order:
  "fst (check_version e w path) =
     (case http e (BASE @ path) of
        None \<Rightarrow> None
      | Some r \<Rightarrow>
          (case structured_version (resp_text r) of
             Some v \<Rightarrow> Some v
           | None \<Rightarrow> labeled_version (resp_text r)))
   \<and> (structured_version t = Some v \<longrightarrow> v \<noteq> [])
   \<and> (if truthy (fst (check_version e w path)) then fst (check_version e w path) else None)
       = spec_check_version (http e (BASE @ path))"
proof (intro conjI)
  show "fst (check_version e w path) =
     (case http e (BASE @ path) of
        None \<Rightarrow> None
      | Some r \<Rightarrow>
          (case structured_version (resp_text r) of
             Some v \<Rightarrow> Some v
           | None \<Rightarrow> labeled_version (resp_text r)))"
    by (rule check_version_strategies)
  show "structured_version t = Some v \<longrightarrow> v \<noteq> []"
    using structured_version_nonempty by blast
  show "(if truthy (fst (check_version e w path)) then fst (check_version e w path) else None)
       = spec_check_version (http e (BASE @ path))"
  proof (cases "http e (BASE @ path)")
    case None
    then show ?thesis
      by (simp add: check_version_strategies spec_check_version_def truthy_def)
  next
    case (Some r)
    show ?thesis
    proof (cases "structured_version (resp_text r)")
      case None
      with Some show ?thesis
        by (simp add: check_version_strategies spec_check_version_def truthy_def)
    next
      case (Some v)
      with structured_version_nonempty [OF Some] \<open>http e (BASE @ path) = Some r\<close>
      show ?thesis
        by (simp add: check_version_strategies spec_check_version_def truthy_def)
    qed
  qed
qed

text \<open>The detail page of the scenario.\<close>

theorem check_version_order_witness:
  "fst (check_version (ex_env 0 ex_run) ex_world ''/app/com.example.app'') = Some ''2.0''
   \<and> ''2.0'' \<noteq> ([] :: string)
   \<and> spec_check_version (http (ex_env 0 ex_run) (BASE @ ''/app/com.example.app''))
       = Some ''2.0''"
proof -
  have s: "structured_version ex_detail_page = Some ''2.0''"
    using ex_search_version by (simp add: structured_version_def)
  have page: "http (ex_env 0 ex_run) (BASE @ ''/app/com.example.app'')
                = Some (ex_page ex_detail_page)"
    by (simp add: ex_env_def ex_http_def)
  have body: "resp_text (ex_page ex_detail_page) = ex_detail_page"
    by (simp add: ex_page_def)
  note order = check_version_order [of "ex_env 0 ex_run" ex_world "''/app/com.example.app''"
      ex_detail_page "''2.0''", unfolded page]
  from order [THEN conjunct1] s have one:
    "fst (check_version (ex_env 0 ex_run) ex_world ''/app/com.example.app'') = Some ''2.0''"
    by (simp add: body)
  from order [THEN conjunct2, THEN conjunct1] s have two: "''2.0'' \<noteq> ([] :: string)"
    by blast
  from order [THEN conjunct2, THEN conjunct2]
  have "spec_check_version (Some (ex_page ex_detail_page)) = Some ''2.0''"
    unfolding one by (simp add: truthy_def)
  with one two show ?thesis
    by (simp add: page)
qed



section \<open>Catalog scraper: the first vendor wins\<close>

text \<open>What \<open>add_links\<close> appends for the links of one page, and what the loops over the
  pages of a developer and over the developers append.\<close>

lemma add_links_inv:
  "add_links dev names ls (A, S) = (A', S') \<Longrightarrow>
     \<exists>B. A' = A @ B \<and> S' = S \<union> snd ` set ls \<and> distinct (map package B)
       \<and> package ` set B = snd ` set ls - S \<and> (\<forall>a \<in> set B. developer a = dev)"
proof (induction ls arbitrary: A S)
  case Nil
  then show ?case by simp
next
  case (Cons l ls)
  obtain path pkg where l: "l = (path, pkg)"
    by (cases l)
  let ?a = "\<lparr>app_path = rstrip CHR ''/'' path, package = pkg,
             name = (case names pkg of Some n \<Rightarrow> n | None \<Rightarrow> pkg), developer = dev\<rparr>"
  show ?case
  proof (cases "pkg \<in> S")
    case True
    with Cons.prems have "add_links dev names ls (A, S) = (A', S')"
      by (simp add: l)
    from Cons.IH [OF this] obtain B where B: "A' = A @ B" "S' = S \<union> snd ` set ls"
      "distinct (map package B)" "package ` set B = snd ` set ls - S"
      "\<forall>a \<in> set B. developer a = dev"
      by blast
    have "S' = S \<union> snd ` set (l # ls)"
      using B(2) True by (auto simp: l)
    moreover have "package ` set B = snd ` set (l # ls) - S"
      using B(4) True by (auto simp: l)
    ultimately have "A' = A @ B \<and> S' = S \<union> snd ` set (l # ls) \<and> distinct (map package B)
       \<and> package ` set B = snd ` set (l # ls) - S \<and> (\<forall>a \<in> set B. developer a = dev)"
      using B(1,3,5) by simp
    then show ?thesis
      by (rule exI [of _ B])
  next
    case False
    with Cons.prems have "add_links dev names ls (A @ [?a], insert pkg S) = (A', S')"
      by (simp add: l)
    from Cons.IH [OF this] obtain B where B: "A' = (A @ [?a]) @ B"
      "S' = insert pkg S \<union> snd ` set ls"
      "distinct (map package B)" "package ` set B = snd ` set ls - insert pkg S"
      "\<forall>a \<in> set B. developer a = dev"
      by blast
    have 1: "A' = A @ ?a # B"
      using B(1) by simp
    have 2: "S' = S \<union> snd ` set (l # ls)"
      using B(2) by (auto simp: l)
    have 3: "distinct (map package (?a # B))"
      using B(3,4) by auto
    have 4: "package ` set (?a # B) = snd ` set (l # ls) - S"
      using B(4) False by (auto simp: l)
    have 5: "\<forall>a \<in> set (?a # B). developer a = dev"
      using B(5) by simp
    from 1 2 3 4 5 have "A' = A @ ?a # B \<and> S' = S \<union> snd ` set (l # ls)
       \<and> distinct (map package (?a # B))
       \<and> package ` set (?a # B) = snd ` set (l # ls) - S
       \<and> (\<forall>a \<in> set (?a # B). developer a = dev)"
      by (intro conjI)
    then show ?thesis
      by (rule exI [of _ "?a # B"])
  qed
qed

lemma scrape_pages_step:
  "scrape_pages (Suc k) e dev page st =
     (case http e (if page = 1 then BASE @ ''/developer/'' @ quote e dev @ ''/''
                   else (BASE @ ''/developer/'' @ quote e dev @ ''/'') @ ''?page='' @ str_nat page) of
        None \<Rightarrow> Some st
      | Some r \<Rightarrow>
          if findall2 pat_app_link (resp_text r) = [] then Some st
          else if contains (resp_text r) (''?page='' @ str_nat (page + 1))
          then scrape_pages k e dev (page + 1)
                 (add_links dev
                    (build_names (resp_text r) (findall2 pat_app_link (resp_text r)) Map.empty)
                    (findall2 pat_app_link (resp_text r)) st)
          else Some (add_links dev
                    (build_names (resp_text r) (findall2 pat_app_link (resp_text r)) Map.empty)
                    (findall2 pat_app_link (resp_text r)) st))"
  by (simp only: scrape_pages.simps Let_def)

lemma vendor_links_step:
  "vendor_links (Suc k) e dev page =
     (case http e (if page = 1 then BASE @ ''/developer/'' @ quote e dev @ ''/''
                   else (BASE @ ''/developer/'' @ quote e dev @ ''/'') @ ''?page='' @ str_nat page) of
        None \<Rightarrow> Some []
      | Some r \<Rightarrow>
          if findall2 pat_app_link (resp_text r) = [] then Some []
          else if contains (resp_text r) (''?page='' @ str_nat (page + 1))
          then map_option (\<lambda>rest. findall2 pat_app_link (resp_text r) @ rest)
                 (vendor_links k e dev (page + 1))
          else Some (findall2 pat_app_link (resp_text r)))"
  by (simp only: vendor_links.simps Let_def)

lemma scrape_none:
  "(scrape_pages fuel e dev page st = None) = (vendor_links fuel e dev page = None)"
proof (induction fuel arbitrary: page st)
  case 0
  show ?case by simp
next
  case (Suc k)
  show ?case
    unfolding scrape_pages_step vendor_links_step
    by (simp only: Suc.IH option.case_eq_if if_distrib [of "\<lambda>x. x = None"] option.simps
          map_option_is_None if_cancel split: if_splits)
qed


lemma scrape_inv:
  "scrape_pages fuel e dev page (A, S) = Some (A', S') \<Longrightarrow>
     \<exists>B ls. vendor_links fuel e dev page = Some ls \<and> A' = A @ B \<and> S' = S \<union> snd ` set ls
       \<and> distinct (map package B) \<and> package ` set B = snd ` set ls - S
       \<and> (\<forall>a \<in> set B. developer a = dev)"
proof (induction fuel arbitrary: page A S)
  case 0
  then show ?case by simp
next
  case (Suc k)
  let ?url = "if page = 1 then BASE @ ''/developer/'' @ quote e dev @ ''/''
      else (BASE @ ''/developer/'' @ quote e dev @ ''/'') @ ''?page='' @ str_nat page"
  let ?P = "\<lambda>B ls. vendor_links (Suc k) e dev page = Some ls \<and> A' = A @ B
       \<and> S' = S \<union> snd ` set ls
       \<and> distinct (map package B) \<and> package ` set B = snd ` set ls - S
       \<and> (\<forall>a \<in> set B. developer a = dev)"
  have stop: "?P [] [] \<Longrightarrow> ?case"
    by (intro exI [of _ "[]"]) simp
  show ?case
  proof (cases "http e ?url")
    case None
    from Suc.prems have "A' = A" "S' = S"
      unfolding scrape_pages_step None by simp_all
    moreover have "vendor_links (Suc k) e dev page = Some []"
      unfolding vendor_links_step None by simp
    ultimately have "?P [] []"
      by simp
    then show ?thesis
      by (rule stop)
  next
    case (Some r)
    let ?links = "findall2 pat_app_link (resp_text r)"
    let ?names = "build_names (resp_text r) ?links Map.empty"
    show ?thesis
    proof (cases "?links = []")
      case True
      from Suc.prems have "A' = A" "S' = S"
        unfolding scrape_pages_step Some using True by simp_all
      moreover have "vendor_links (Suc k) e dev page = Some []"
        unfolding vendor_links_step Some using True by simp
      ultimately have "?P [] []"
        by simp
      then show ?thesis
        by (rule stop)
    next
      case False
      obtain A1 S1 where st1: "add_links dev ?names ?links (A, S) = (A1, S1)"
        by (cases "add_links dev ?names ?links (A, S)")
      from add_links_inv [OF st1] obtain B1 where B1: "A1 = A @ B1" "S1 = S \<union> snd ` set ?links"
        "distinct (map package B1)" "package ` set B1 = snd ` set ?links - S"
        "\<forall>a \<in> set B1. developer a = dev"
        by blast
      show ?thesis
      proof (cases "contains (resp_text r) (''?page='' @ str_nat (page + 1))")
        case nomore: False
        from Suc.prems have "add_links dev ?names ?links (A, S) = (A', S')"
          unfolding scrape_pages_step Some using False nomore by simp
        with st1 have "A' = A1" "S' = S1"
          by simp_all
        moreover have "vendor_links (Suc k) e dev page = Some ?links"
          unfolding vendor_links_step Some using False nomore by simp
        ultimately have "?P B1 ?links"
          using B1 by simp
        then show ?thesis
          by (intro exI [of _ B1] exI [of _ ?links])
      next
        case True
        from Suc.prems have "scrape_pages k e dev (page + 1) (A1, S1) = Some (A', S')"
          unfolding scrape_pages_step Some using False True st1 by simp
        from Suc.IH [OF this] obtain B2 ls2 where
          B2: "vendor_links k e dev (page + 1) = Some ls2" "A' = A1 @ B2"
            "S' = S1 \<union> snd ` set ls2" "distinct (map package B2)"
            "package ` set B2 = snd ` set ls2 - S1" "\<forall>a \<in> set B2. developer a = dev"
          by blast
        have 1: "vendor_links (Suc k) e dev page = Some (?links @ ls2)"
          unfolding vendor_links_step Some using False True B2(1) by simp
        have 2: "A' = A @ B1 @ B2"
          by (simp add: B2(2) B1(1))
        have 3: "S' = S \<union> snd ` set (?links @ ls2)"
          unfolding B2(3) B1(2) by auto
        have disj: "package ` set B1 \<inter> package ` set B2 = {}"
          unfolding B1(4) B2(5) B1(2) by auto
        have 4: "distinct (map package (B1 @ B2))"
          using B1(3) B2(4) disj by simp
        have 5: "package ` set (B1 @ B2) = snd ` set (?links @ ls2) - S"
          unfolding set_append image_Un B1(4) B2(5) B1(2) by auto
        have 6: "\<forall>a \<in> set (B1 @ B2). developer a = dev"
          using B1(5) B2(6) by auto
        from 1 2 3 4 5 6 have "?P (B1 @ B2) (?links @ ls2)"
          by (intro conjI)
        then show ?thesis
          by (intro exI [of _ "B1 @ B2"] exI [of _ "?links @ ls2"])
      qed
    qed
  qed
qed

lemma scrape_packages:
  assumes "scrape_pages fuel e dev 1 (A, S) = Some (A', S')"
  shows "\<exists>B. A' = A @ B \<and> S' = S \<union> vendor_packages fuel e dev
       \<and> distinct (map package B) \<and> package ` set B = vendor_packages fuel e dev - S
       \<and> (\<forall>a \<in> set B. developer a = dev)"
proof -
  from scrape_inv [OF assms] obtain B ls where
    B: "vendor_links fuel e dev 1 = Some ls" "A' = A @ B" "S' = S \<union> snd ` set ls"
      "distinct (map package B)" "package ` set B = snd ` set ls - S"
      "\<forall>a \<in> set B. developer a = dev"
    by blast
  have vp: "vendor_packages fuel e dev = snd ` set ls"
    using B(1) by (simp add: vendor_packages_def)
  from B(2-6) have "A' = A @ B \<and> S' = S \<union> vendor_packages fuel e dev
       \<and> distinct (map package B) \<and> package ` set B = vendor_packages fuel e dev - S
       \<and> (\<forall>a \<in> set B. developer a = dev)"
    unfolding vp by (intro conjI)
  then show ?thesis
    by (rule exI [of _ B])
qed

lemma loop_none:
  "(discover_loop fuel e devs st = None) = (\<exists>d \<in> set devs. vendor_links fuel e d 1 = None)"
proof (induction devs arbitrary: st)
  case Nil
  show ?case by simp
next
  case (Cons d devs)
  show ?case
  proof (cases "scrape_pages fuel e d 1 st")
    case None
    then have "vendor_links fuel e d 1 = None"
      by (simp add: scrape_none)
    with None show ?thesis
      by simp
  next
    case (Some st1)
    then have "vendor_links fuel e d 1 \<noteq> None"
      using scrape_none [of fuel e d 1 st] by simp
    with Some show ?thesis
      by (auto simp: Cons.IH)
  qed
qed

lemma loop_inv:
  "discover_loop fuel e devs (A, S) = Some (A', S') \<Longrightarrow>
     \<exists>B. A' = A @ B \<and> distinct (map package B)
       \<and> package ` set B = (\<Union>d \<in> set devs. vendor_packages fuel e d) - S
       \<and> (\<forall>a \<in> set B. \<exists>i < length devs. developer a = devs ! i
             \<and> package a \<in> vendor_packages fuel e (devs ! i)
             \<and> (\<forall>j < i. package a \<notin> vendor_packages fuel e (devs ! j)))"
proof (induction devs arbitrary: A S)
  case Nil
  then show ?case by simp
next
  case (Cons d devs)
  let ?vp = "vendor_packages fuel e"
  obtain A1 S1 where st1: "scrape_pages fuel e d 1 (A, S) = Some (A1, S1)"
    and rest: "discover_loop fuel e devs (A1, S1) = Some (A', S')"
    using Cons.prems by (auto split: option.splits)
  from scrape_packages [OF st1] obtain B1 where
    B1: "A1 = A @ B1" "S1 = S \<union> ?vp d" "distinct (map package B1)"
      "package ` set B1 = ?vp d - S" "\<forall>a \<in> set B1. developer a = d"
    by blast
  from Cons.IH [OF rest] obtain B2 where
    B2: "A' = A1 @ B2" "distinct (map package B2)"
      "package ` set B2 = (\<Union>x \<in> set devs. ?vp x) - S1"
      "\<forall>a \<in> set B2. \<exists>i < length devs. developer a = devs ! i
             \<and> package a \<in> ?vp (devs ! i) \<and> (\<forall>j < i. package a \<notin> ?vp (devs ! j))"
    by blast
  have 1: "A' = A @ B1 @ B2"
    by (simp add: B2(1) B1(1))
  have disj: "package ` set B1 \<inter> package ` set B2 = {}"
    unfolding B1(4) B2(3) B1(2) by auto
  have 2: "distinct (map package (B1 @ B2))"
    using B1(3) B2(2) disj by simp
  have 3: "package ` set (B1 @ B2) = (\<Union>x \<in> set (d # devs). ?vp x) - S"
    unfolding set_append image_Un B1(4) B2(3) B1(2) by auto
  have 4: "\<exists>i < length (d # devs). developer a = (d # devs) ! i
             \<and> package a \<in> ?vp ((d # devs) ! i)
             \<and> (\<forall>j < i. package a \<notin> ?vp ((d # devs) ! j))" if a: "a \<in> set (B1 @ B2)" for a
  proof (cases "a \<in> set B1")
    case True
    then have "developer a = d" "package a \<in> ?vp d"
      using B1(5) B1(4) by auto
    then show ?thesis
      by (intro exI [of _ 0]) simp
  next
    case False
    with a have a2: "a \<in> set B2"
      by simp
    with B2(4) obtain i where i: "i < length devs" "developer a = devs ! i"
      "package a \<in> ?vp (devs ! i)" "\<forall>j < i. package a \<notin> ?vp (devs ! j)"
      by blast
    from a2 B2(3) have "package a \<notin> S1"
      by auto
    then have nd: "package a \<notin> ?vp d"
      by (simp add: B1(2))
    have "\<forall>j < Suc i. package a \<notin> ?vp ((d # devs) ! j)"
      using nd i(4) by (auto simp: less_Suc_eq_0_disj)
    then show ?thesis
      using i(1,2,3) by (intro exI [of _ "Suc i"]) simp
  qed
  from 1 2 3 4 have "A' = A @ B1 @ B2 \<and> distinct (map package (B1 @ B2))
       \<and> package ` set (B1 @ B2) = (\<Union>x \<in> set (d # devs). ?vp x) - S
       \<and> (\<forall>a \<in> set (B1 @ B2). \<exists>i < length (d # devs). developer a = (d # devs) ! i
             \<and> package a \<in> ?vp ((d # devs) ! i)
             \<and> (\<forall>j < i. package a \<notin> ?vp ((d # devs) ! j)))"
    by (intro conjI ballI)
  then show ?case
    by (rule exI [of _ "B1 @ B2"])
qed

text \<open>The site with two developers, evaluated.\<close>

lemma ex_links1: "findall2 pat_app_link ex_vendor_page1 = [(''/x/a.b/'', ''a.b'')]"
  by (simp add: findall2_def finditer.simps ms.simps pat_app_link_def pat_package_def
        ex_vendor_page1_def match_at_def dq_def not_chr_def lower_def lower_digit_us_def group_def)

lemma ex_links2: "findall2 pat_app_link ex_vendor_page2 = [(''/w/a.b/'', ''a.b'')]"
  by (simp add: findall2_def finditer.simps ms.simps pat_app_link_def pat_package_def
        ex_vendor_page2_def match_at_def dq_def not_chr_def lower_def lower_digit_us_def group_def)

lemma ex_links3:
  "findall2 pat_app_link ex_vendor_page3 = [(''/y/a.b/'', ''a.b''), (''/z/c.d/'', ''c.d'')]"
  by (simp add: findall2_def finditer.simps ms.simps pat_app_link_def pat_package_def
        ex_vendor_page3_def match_at_def dq_def not_chr_def lower_def lower_digit_us_def group_def)


lemma ex_names:
  "re_search (pat_name ''/x/a.b/'') ex_vendor_page1 = None"
  "re_search (pat_name ''/w/a.b/'') ex_vendor_page2 = None"
  "re_search (pat_name ''/y/a.b/'') ex_vendor_page3 = None"
  "re_search (pat_name ''/z/c.d/'') ex_vendor_page3 = None"
  by (simp_all add: ms.simps pat_name_def ex_vendor_page1_def ex_vendor_page2_def
        ex_vendor_page3_def match_at_def dq_def)

lemma str_nat_2: "str_nat 2 = ''2''"
  by code_simp

lemma str_nat_3: "str_nat 3 = ''3''"
  by code_simp

lemma str_nat_Suc:
  "str_nat (Suc (Suc 0)) = ''2''"
  "str_nat (Suc (Suc (Suc 0))) = ''3''"
  by code_simp+

lemma ex_markers:
  "contains ex_vendor_page1 (''?page='' @ str_nat 2)"
  "\<not> contains ex_vendor_page2 (''?page='' @ str_nat 3)"
  "\<not> contains ex_vendor_page3 (''?page='' @ str_nat 2)"
  by (simp_all add: str_nat_2 str_nat_3 ex_vendor_page1_def ex_vendor_page2_def
        ex_vendor_page3_def startswith_def dq_def)

lemma ex_page2_url:
  "BASE @ ''/developer/'' @ ''A'' @ ''/'' @ ''?page='' @ str_nat 2 = BASE @ ''/developer/A/?page=2''"
  by (simp add: str_nat_2)

lemma ex_vendor_http:
  "http ex_vendor_site (BASE @ ''/developer/A/'') = Some (ex_page ex_vendor_page1)"
  "http ex_vendor_site (BASE @ ''/developer/A/?page=2'') = Some (ex_page ex_vendor_page2)"
  "http ex_vendor_site (BASE @ ''/developer/B/'') = Some (ex_page ex_vendor_page3)"
  "quote ex_vendor_site = (\<lambda>s. s)"
  "resp_text (ex_page t) = t"
  by (simp_all add: ex_vendor_site_def ex_page_def)

lemma ex_scrape_A:
  "scrape_pages 2 ex_vendor_site ''A'' 1 ([], {})
     = Some ([\<lparr>app_path = ''/x/a.b'', package = ''a.b'', name = ''a.b'', developer = ''A''\<rparr>],
             {''a.b''})"
proof -
  have two: "2 = Suc (Suc 0)"
    by simp
  show ?thesis
    unfolding two scrape_pages_step
    using ex_markers
    by (simp add: ex_vendor_http ex_links1 ex_links2 ex_names
          str_nat_2 str_nat_3 str_nat_Suc rstrip_def)
qed

lemma ex_scrape_B:
  "scrape_pages 2 ex_vendor_site ''B'' 1 (A, {''a.b''})
     = Some (A @ [\<lparr>app_path = ''/z/c.d'', package = ''c.d'', name = ''c.d'', developer = ''B''\<rparr>],
             {''c.d'', ''a.b''})"
proof -
  have two: "2 = Suc (Suc 0)"
    by simp
  show ?thesis
    unfolding two scrape_pages_step
    using ex_markers
    by (simp add: ex_vendor_http ex_links3 ex_names str_nat_2 str_nat_3 str_nat_Suc rstrip_def)
qed

lemma ex_discover:
  "discover_apps 2 ex_vendor_site (Some [''A'', ''B''])
     = Some [\<lparr>app_path = ''/x/a.b'', package = ''a.b'', name = ''a.b'', developer = ''A''\<rparr>,
             \<lparr>app_path = ''/z/c.d'', package = ''c.d'', name = ''c.d'', developer = ''B''\<rparr>]"
  unfolding discover_apps_def option.case discover_loop.simps ex_scrape_A ex_scrape_B
  by simp

lemma ex_vendor_links:
  "vendor_links 2 ex_vendor_site ''A'' 1 = Some [(''/x/a.b/'', ''a.b''), (''/w/a.b/'', ''a.b'')]"
  "vendor_links 2 ex_vendor_site ''B'' 1 = Some [(''/y/a.b/'', ''a.b''), (''/z/c.d/'', ''c.d'')]"
proof -
  have two: "2 = Suc (Suc 0)"
    by simp
  show "vendor_links 2 ex_vendor_site ''A'' 1
      = Some [(''/x/a.b/'', ''a.b''), (''/w/a.b/'', ''a.b'')]"
    unfolding two vendor_links_step
    using ex_markers
    by (simp add: ex_vendor_http ex_links1 ex_links2 str_nat_2 str_nat_3 str_nat_Suc)
  show "vendor_links 2 ex_vendor_site ''B'' 1
      = Some [(''/y/a.b/'', ''a.b''), (''/z/c.d/'', ''c.d'')]"
    unfolding two vendor_links_step
    using ex_markers
    by (simp add: ex_vendor_http ex_links3 str_nat_2 str_nat_Suc)
qed

text \<open>
  Claim C7.  A discovery over the developer list \<open>devs\<close> returns unless the chain of
  pages of some developer does not end within the pages allowed.  The entries it returns
  have pairwise different packages; their packages are exactly the packages that appear
  under some developer of the list, whether once or several times, on one page or on
  several; and every entry is attributed to the first developer of the list under which
  its package appears.
\<close>

theorem first_vendor_wins:
  "(discover_apps fuel e (Some devs) = None)
      = (\<exists>d \<in> set devs. vendor_links fuel e d 1 = None)
   \<and> (discover_apps fuel e (Some devs) = Some apps \<longrightarrow>
        distinct (map package apps)
        \<and> package ` set apps = (\<Union>d \<in> set devs. vendor_packages fuel e d)
        \<and> (\<forall>a \<in> set apps. \<exists>i < length devs. developer a = devs ! i
              \<and> package a \<in> vendor_packages fuel e (devs ! i)
              \<and> (\<forall>j < i. package a \<notin> vendor_packages fuel e (devs ! j))))"
proof (rule conjI)
  show "(discover_apps fuel e (Some devs) = None)
      = (\<exists>d \<in> set devs. vendor_links fuel e d 1 = None)"
    by (simp add: discover_apps_def loop_none)
next
  show "discover_apps fuel e (Some devs) = Some apps \<longrightarrow>
        distinct (map package apps)
        \<and> package ` set apps = (\<Union>d \<in> set devs. vendor_packages fuel e d)
        \<and> (\<forall>a \<in> set apps. \<exists>i < length devs. developer a = devs ! i
              \<and> package a \<in> vendor_packages fuel e (devs ! i)
              \<and> (\<forall>j < i. package a \<notin> vendor_packages fuel e (devs ! j)))"
  proof
    assume "discover_apps fuel e (Some devs) = Some apps"
    then obtain S' where "discover_loop fuel e devs ([], {}) = Some (apps, S')"
      by (auto simp: discover_apps_def)
    from loop_inv [OF this] show "distinct (map package apps)
        \<and> package ` set apps = (\<Union>d \<in> set devs. vendor_packages fuel e d)
        \<and> (\<forall>a \<in> set apps. \<exists>i < length devs. developer a = devs ! i
              \<and> package a \<in> vendor_packages fuel e (devs ! i)
              \<and> (\<forall>j < i. package a \<notin> vendor_packages fuel e (devs ! j)))"
      by auto
  qed
qed

text \<open>On the site with two developers, \<open>a.b\<close> appears on two pages of \<open>A\<close> and on the
  page of \<open>B\<close>: it is returned once, for \<open>A\<close>, and \<open>c.d\<close> for \<open>B\<close>.\<close>

theorem first_vendor_wins_witness:
  "discover_apps 2 ex_vendor_site (Some [''A'', ''B''])
     = Some [\<lparr>app_path = ''/x/a.b'', package = ''a.b'', name = ''a.b'', developer = ''A''\<rparr>,
             \<lparr>app_path = ''/z/c.d'', package = ''c.d'', name = ''c.d'', developer = ''B''\<rparr>]
   \<and> vendor_packages 2 ex_vendor_site ''A'' = {''a.b''}
   \<and> vendor_packages 2 ex_vendor_site ''B'' = {''a.b'', ''c.d''}
   \<and> distinct (map package
         [\<lparr>app_path = ''/x/a.b'', package = ''a.b'', name = ''a.b'', developer = ''A''\<rparr>,
          \<lparr>app_path = ''/z/c.d'', package = ''c.d'', name = ''c.d'', developer = ''B''\<rparr>])
   \<and> package ` set
         [\<lparr>app_path = ''/x/a.b'', package = ''a.b'', name = ''a.b'', developer = ''A''\<rparr>,
          \<lparr>app_path = ''/z/c.d'', package = ''c.d'', name = ''c.d'', developer = ''B''\<rparr>]
       = vendor_packages 2 ex_vendor_site ''A'' \<union> vendor_packages 2 ex_vendor_site ''B''"
proof -
  let ?cat = "[\<lparr>app_path = ''/x/a.b'', package = ''a.b'', name = ''a.b'', developer = ''A''\<rparr>,
          \<lparr>app_path = ''/z/c.d'', package = ''c.d'', name = ''c.d'', developer = ''B''\<rparr>]"
  have ev: "discover_apps 2 ex_vendor_site (Some [''A'', ''B'']) = Some ?cat"
    by (rule ex_discover)
  have vpA: "vendor_packages 2 ex_vendor_site ''A'' = {''a.b''}"
    unfolding vendor_packages_def ex_vendor_links by simp
  have vpB: "vendor_packages 2 ex_vendor_site ''B'' = {''a.b'', ''c.d''}"
    unfolding vendor_packages_def ex_vendor_links by simp
  from first_vendor_wins [of 2 ex_vendor_site "[''A'', ''B'']" ?cat] ev
  have "distinct (map package ?cat)
      \<and> package ` set ?cat
          = (\<Union>d \<in> set [''A'', ''B'']. vendor_packages 2 ex_vendor_site d)"
    by blast
  then have "distinct (map package ?cat)"
    and "package ` set ?cat
          = vendor_packages 2 ex_vendor_site ''A'' \<union> vendor_packages 2 ex_vendor_site ''B''"
    by simp_all
  with ev vpA vpB show ?thesis
    by (intro conjI)
qed

end
